theory Spec2Isabelle
  imports Main "HOL-Library.Word"
begin

section \<open>Data model\<close>

text \<open>
  A Python \<open>str\<close> is a sequence of Unicode code points and \<open>bytes\<close> a sequence of
  octets. Code points are natural numbers here, so that \<open>.\<close> of a regular expression
  ranges over one code point as it does in Python. \<open>asc\<close> turns an ASCII literal into
  its code points; the backslash (92) and the newline (10) are written as numbers.
\<close>

type_synonym pystr = "nat list"
type_synonym bytes = "8 word list"

definition asc :: "string \<Rightarrow> pystr" where
  "asc s = map of_char s"

text \<open>The exceptions that the modelled statements can raise.\<close>

datatype py_error = AttributeError | KeyError | TypeError

text \<open>
  A \<open>dict\<close> keeps its keys in insertion order; storing under an existing key
  replaces the value in place. A value \<open>None\<close> of Python is the \<open>None\<close> of the
  option type.
\<close>

type_synonym pydict = "(pystr \<times> pystr option) list"

fun dict_set :: "pydict \<Rightarrow> pystr \<Rightarrow> pystr option \<Rightarrow> pydict" where
  "dict_set [] k v = [(k, v)]"
| "dict_set ((k', v') # d) k v =
     (if k' = k then (k, v) # d else (k', v') # dict_set d k v)"

fun dict_lookup :: "pydict \<Rightarrow> pystr \<Rightarrow> pystr option option" where
  "dict_lookup [] k = None"
| "dict_lookup ((k', v') # d) k = (if k' = k then Some v' else dict_lookup d k)"

definition dict_keys :: "pydict \<Rightarrow> pystr list" where
  "dict_keys d = map fst d"

definition dict_values :: "pydict \<Rightarrow> pystr option list" where
  "dict_values d = map snd d"

text \<open>
  A member of the tar archive: its name and, for a regular file, its bytes.
  \<open>extractfile\<close> returns \<open>None\<close> for a member that is not a regular file (a
  directory, say). \<open>NotATar\<close> is the download on which \<open>tarfile.open\<close> raises
  \<open>ReadError\<close>.
\<close>

record member =
  m_name :: pystr
  m_data :: "bytes option"

datatype source = NotATar | Tar "member list"

section \<open>String methods\<close>

fun startswith :: "pystr \<Rightarrow> pystr \<Rightarrow> bool" where
  "startswith s [] = True"
| "startswith [] (p # ps) = False"
| "startswith (c # cs) (p # ps) = (c = p \<and> startswith cs ps)"

definition endswith :: "pystr \<Rightarrow> pystr \<Rightarrow> bool" where
  "endswith s suf = startswith (rev s) (rev suf)"

text \<open>
  \<open>s.replace(old, new)\<close>: every occurrence of \<open>old\<close> found by one scan from the
  left, occurrences not overlapping. With an empty \<open>old\<close> Python puts \<open>new\<close> before
  every character and at the end.
\<close>

function str_replace :: "pystr \<Rightarrow> pystr \<Rightarrow> pystr \<Rightarrow> pystr" where
  "str_replace s [] new = new @ concat (map (\<lambda>c. c # new) s)"
| "str_replace [] (p # ps) new = []"
| "str_replace (c # cs) (p # ps) new =
     (if startswith (c # cs) (p # ps)
      then new @ str_replace (drop (length ps) cs) (p # ps) new
      else c # str_replace cs (p # ps) new)"
  by pat_completeness auto
termination
  by (relation "measure (\<lambda>(s, old, new). length s)") auto

text \<open>\<open>sep.join(xs)\<close> raises \<open>TypeError\<close> when an item is not a string.\<close>

fun str_join :: "pystr \<Rightarrow> pystr option list \<Rightarrow> py_error + pystr" where
  "str_join sep [] = Inr []"
| "str_join sep (None # xs) = Inl TypeError"
| "str_join sep [Some x] = Inr x"
| "str_join sep (Some x # y # ys) =
     (case str_join sep (y # ys) of
        Inl e \<Rightarrow> Inl e
      | Inr r \<Rightarrow> Inr (x @ sep @ r))"

section \<open>Regular expressions\<close>

text \<open>
  Each pattern of the source is a matcher: applied to the text that starts at the
  scan position it returns the length of the match there, if there is one. Every
  pattern of the source consumes at least one character, so a match of length 0 does
  not occur and is treated as no match.
\<close>

type_synonym matcher = "pystr \<Rightarrow> nat option"

text \<open>\<open>re.sub(pattern, repl, s)\<close>: the matches are found from the left and do not overlap.\<close>

function re_sub :: "matcher \<Rightarrow> pystr \<Rightarrow> pystr \<Rightarrow> pystr" where
  "re_sub m repl [] = []"
| "re_sub m repl (c # cs) =
     (case m (c # cs) of
        Some (Suc n) \<Rightarrow> repl @ re_sub m repl (drop n cs)
      | _ \<Rightarrow> c # re_sub m repl cs)"
  by pat_completeness auto
termination
  by (relation "measure (\<lambda>(m, repl, s). length s)") auto

text \<open>\<open>re.search(pattern, s)\<close>: the text of the leftmost match (\<open>group(0)\<close>).\<close>

fun re_search :: "matcher \<Rightarrow> pystr \<Rightarrow> pystr option" where
  "re_search m [] = None"
| "re_search m (c # cs) =
     (case m (c # cs) of
        Some (Suc n) \<Rightarrow> Some (take (Suc n) (c # cs))
      | _ \<Rightarrow> re_search m cs)"

text \<open>The position of the first occurrence of a literal.\<close>

fun find_sub :: "pystr \<Rightarrow> pystr \<Rightarrow> nat option" where
  "find_sub p [] = (if p = [] then Some 0 else None)"
| "find_sub p (c # cs) =
     (if startswith (c # cs) p then Some 0 else map_option Suc (find_sub p cs))"

text \<open>A literal pattern.\<close>

definition m_lit :: "pystr \<Rightarrow> matcher" where
  "m_lit p s = (if startswith s p then Some (length p) else None)"

text \<open>
  \<open>open.*?close\<close> with \<open>re.DOTALL\<close>: the literal \<open>open\<close>, then the shortest text
  up to the first \<open>close\<close> after it.
\<close>

definition m_block :: "pystr \<Rightarrow> pystr \<Rightarrow> matcher" where
  "m_block opn cls s =
     (if startswith s opn
      then (case find_sub cls (drop (length opn) s) of
              Some k \<Rightarrow> Some (length opn + k + length cls)
            | None \<Rightarrow> None)
      else None)"

text \<open>
  \<open>%.*\n\<close>: \<open>.\<close> does not match a newline, so the match runs from the \<open>%\<close> to
  the first newline after it, and there is none when no newline follows.
\<close>

definition m_line_comment :: matcher where
  "m_line_comment s =
     (case s of
        [] \<Rightarrow> None
      | c # cs \<Rightarrow>
          if c = 37 \<and> 10 \<in> set cs
          then Some (Suc (Suc (length (takeWhile (\<lambda>x. x \<noteq> 10) cs))))
          else None)"

text \<open>\<open>\n+\<close>\<close>

definition m_newlines :: matcher where
  "m_newlines s =
     (let n = length (takeWhile (\<lambda>x. x = 10) s)
      in if 1 \<le> n then Some n else None)"

text \<open>\<open>[ \t\r\f]{3,}\<close>\<close>

definition is_hspace :: "nat \<Rightarrow> bool" where
  "is_hspace c = (c = 32 \<or> c = 9 \<or> c = 13 \<or> c = 12)"

definition m_hspaces :: matcher where
  "m_hspaces s =
     (let n = length (takeWhile is_hspace s)
      in if 3 \<le> n then Some n else None)"

section \<open>The noise stripper (lines 112 to 122 of \<open>tex\<close>)\<close>

definition pat_begin_comment :: pystr where
  "pat_begin_comment = 92 # asc ''begin{comment}''"

definition pat_end_comment :: pystr where
  "pat_end_comment = 92 # asc ''end{comment}''"

definition pat_iffalse :: pystr where
  "pat_iffalse = 92 # asc ''iffalse''"

definition pat_fi :: pystr where
  "pat_fi = 92 # asc ''fi''"

definition remove_line_comments :: "pystr \<Rightarrow> pystr" where
  "remove_line_comments content = re_sub m_line_comment [10] content"

definition remove_comment_blocks :: "pystr \<Rightarrow> pystr" where
  "remove_comment_blocks content =
     re_sub (m_block pat_begin_comment pat_end_comment) [] content"

definition remove_iffalse_blocks :: "pystr \<Rightarrow> pystr" where
  "remove_iffalse_blocks content = re_sub (m_block pat_iffalse pat_fi) [] content"

definition collapse_newlines :: "pystr \<Rightarrow> pystr" where
  "collapse_newlines content = re_sub m_newlines [10] content"

definition remove_linebreaks :: "pystr \<Rightarrow> pystr" where
  "remove_linebreaks content = re_sub (m_lit [92, 92]) [] content"

definition collapse_spaces :: "pystr \<Rightarrow> pystr" where
  "collapse_spaces content = re_sub m_hspaces [32] content"

definition strip_noise :: "pystr \<Rightarrow> pystr" where
  "strip_noise content =
     collapse_spaces (remove_linebreaks (collapse_newlines
       (remove_iffalse_blocks (remove_comment_blocks (remove_line_comments content)))))"

section \<open>Decoding (line 111 of \<open>tex\<close>)\<close>

text \<open>
  \<open>f.read().decode('utf-8', errors='ignore')\<close>. One step of the UTF-8 decoder reads
  the sequence that starts with the lead byte \<open>ch\<close>: it yields the code point, or
  \<open>None\<close> for an invalid sequence, and the number of bytes after \<open>ch\<close> that belong
  to the sequence or to the range reported as invalid (the lead byte alone for an
  invalid start or an invalid first continuation byte, the bytes accepted so far for a
  later invalid continuation byte, the rest of the input for a truncated sequence).
  With \<open>errors='ignore'\<close> the handler yields the empty string for the invalid range
  and decoding goes on after it.
\<close>

definition is_continuation :: "8 word \<Rightarrow> bool" where
  "is_continuation b = (0x80 \<le> b \<and> b < 0xC0)"

definition utf8_step :: "8 word \<Rightarrow> bytes \<Rightarrow> nat option \<times> nat" where
  "utf8_step ch rest =
     (if ch < 0x80 then (Some (unat ch), 0)
      else if ch < 0xE0 then
        (if ch < 0xC2 then (None, 0)
         else case rest of
           [] \<Rightarrow> (None, 0)
         | ch2 # _ \<Rightarrow>
             if \<not> is_continuation ch2 then (None, 0)
             else (Some (unat ch * 64 + unat ch2 - (0xC0 * 64 + 0x80)), 1))
      else if ch < 0xF0 then
        (case rest of
           [] \<Rightarrow> (None, 0)
         | [ch2] \<Rightarrow>
             if \<not> is_continuation ch2 \<or> (if ch2 < 0xA0 then ch = 0xE0 else ch = 0xED)
             then (None, 0) else (None, 1)
         | ch2 # ch3 # _ \<Rightarrow>
             if \<not> is_continuation ch2 then (None, 0)
             else if ch = 0xE0 \<and> ch2 < 0xA0 then (None, 0)
             else if ch = 0xED \<and> 0xA0 \<le> ch2 then (None, 0)
             else if \<not> is_continuation ch3 then (None, 1)
             else (Some (unat ch * 4096 + unat ch2 * 64 + unat ch3
                          - (0xE0 * 4096 + 0x80 * 64 + 0x80)), 2))
      else if ch < 0xF5 then
        (case rest of
           [] \<Rightarrow> (None, 0)
         | [ch2] \<Rightarrow>
             if \<not> is_continuation ch2 \<or> (if ch2 < 0x90 then ch = 0xF0 else ch = 0xF4)
             then (None, 0) else (None, 1)
         | [ch2, ch3] \<Rightarrow>
             if \<not> is_continuation ch2 \<or> (if ch2 < 0x90 then ch = 0xF0 else ch = 0xF4)
             then (None, 0)
             else if \<not> is_continuation ch3 then (None, 1) else (None, 2)
         | ch2 # ch3 # ch4 # _ \<Rightarrow>
             if \<not> is_continuation ch2 then (None, 0)
             else if ch = 0xF0 \<and> ch2 < 0x90 then (None, 0)
             else if ch = 0xF4 \<and> 0x90 \<le> ch2 then (None, 0)
             else if \<not> is_continuation ch3 then (None, 1)
             else if \<not> is_continuation ch4 then (None, 2)
             else (Some (unat ch * 262144 + unat ch2 * 4096 + unat ch3 * 64 + unat ch4
                          - (0xF0 * 262144 + 0x80 * 4096 + 0x80 * 64 + 0x80)), 3))
      else (None, 0))"

function utf8_decode_ignore :: "bytes \<Rightarrow> pystr" where
  "utf8_decode_ignore [] = []"
| "utf8_decode_ignore (ch # rest) =
     (case utf8_step ch rest of
        (Some cp, k) \<Rightarrow> cp # utf8_decode_ignore (drop k rest)
      | (None, k) \<Rightarrow> utf8_decode_ignore (drop k rest))"
  by pat_completeness auto
termination
  by (relation "measure length") auto

section \<open>The archive (lines 72 to 84 and 110 of \<open>tex\<close>)\<close>

definition getnames :: "member list \<Rightarrow> pystr list" where
  "getnames ms = map m_name ms"

text \<open>
  \<open>tar.extractfile(t)\<close> looks the member up by name, the last member of that name
  winning, and yields its file object, or \<open>None\<close> when the member is not a regular
  file; \<open>f.read()\<close> on \<open>None\<close> raises \<open>AttributeError\<close>.
\<close>

definition extractfile :: "member list \<Rightarrow> pystr \<Rightarrow> py_error + bytes option" where
  "extractfile ms t =
     (case filter (\<lambda>m. m_name m = t) (rev ms) of
        [] \<Rightarrow> Inl KeyError
      | m # _ \<Rightarrow> Inr (m_data m))"

definition read_member :: "member list \<Rightarrow> pystr \<Rightarrow> py_error + bytes" where
  "read_member ms t =
     (case extractfile ms t of
        Inl e \<Rightarrow> Inl e
      | Inr None \<Rightarrow> Inl AttributeError
      | Inr (Some raw) \<Rightarrow> Inr raw)"

section \<open>The main-document resolver (lines 84 to 103 of \<open>tex\<close>)\<close>

text \<open>
  \<open>tex_files\<close> is not empty here: line 79 has returned otherwise, so
  \<open>tex_files[0]\<close> exists whenever it is read.
\<close>

definition main_from_bbl :: "pystr list \<Rightarrow> pystr list \<Rightarrow> pystr option" where
  "main_from_bbl tex_files bbl_file =
     (case bbl_file of
        [] \<Rightarrow> (if 1 < length tex_files then None
               else (case tex_files of [] \<Rightarrow> None | t # _ \<Rightarrow> Some t))
      | [b] \<Rightarrow>
          (let main_name = str_replace b (asc ''.bbl'') [];
               main_tex = main_name @ asc ''.tex''
           in if main_tex \<in> set tex_files then Some main_tex else None)
      | _ \<Rightarrow> None)"

section \<open>Reading the files (lines 108 to 127 of \<open>tex\<close>)\<close>

definition pat_begin_document :: pystr where
  "pat_begin_document = 92 # asc ''begin{document}''"

definition process_file :: "bytes \<Rightarrow> pystr" where
  "process_file raw = strip_noise (utf8_decode_ignore raw)"

fun read_files ::
  "member list \<Rightarrow> pystr list \<Rightarrow> pystr option \<Rightarrow> pydict \<Rightarrow> py_error + (pystr option \<times> pydict)"
where
  "read_files ms [] main_tex file_contents = Inr (main_tex, file_contents)"
| "read_files ms (t # ts) main_tex file_contents =
     (case read_member ms t of
        Inl e \<Rightarrow> Inl e
      | Inr raw \<Rightarrow>
          (let content = process_file raw;
               main_tex' =
                 (if main_tex = None \<and> find_sub pat_begin_document content \<noteq> None
                  then Some t else main_tex)
           in read_files ms ts main_tex' (dict_set file_contents t (Some content))))"

section \<open>The include flattener (lines 130 to 141 of \<open>tex\<close>)\<close>

text \<open>
  \<open>\\cmd\{(.+?)\}\<close>: the literal \<open>\cmd{\<close>, one character that is not a newline,
  then the shortest run of such characters up to a \<open>}\<close>. The result is the length
  of the match and the text of group 1.
\<close>

definition m_directive :: "pystr \<Rightarrow> pystr \<Rightarrow> (nat \<times> pystr) option" where
  "m_directive cmd s =
     (let opn = 92 # cmd @ [123]
      in if startswith s opn
         then (case drop (length opn) s of
                 [] \<Rightarrow> None
               | c # cs \<Rightarrow>
                   if c = 10 then None
                   else (let a = takeWhile (\<lambda>x. x \<noteq> 125 \<and> x \<noteq> 10) cs
                         in if startswith (drop (length a) cs) [125]
                            then Some (length opn + Suc (length a) + 1, c # a)
                            else None))
         else None)"

text \<open>\<open>re.findall\<close> with one group: group 1 of every match, from the left.\<close>

function re_findall :: "(pystr \<Rightarrow> (nat \<times> pystr) option) \<Rightarrow> pystr \<Rightarrow> pystr list" where
  "re_findall m [] = []"
| "re_findall m (c # cs) =
     (case m (c # cs) of
        Some (Suc n, g) \<Rightarrow> g # re_findall m (drop n cs)
      | _ \<Rightarrow> re_findall m cs)"
  by pat_completeness auto
termination
  by (relation "measure (\<lambda>(m, s). length s)") auto

definition input_marker :: "pystr \<Rightarrow> pystr" where
  "input_marker f = 92 # asc ''input{'' @ f @ asc ''}''"

definition include_target :: "pystr \<Rightarrow> pystr" where
  "include_target f = (if \<not> endswith f (asc ''.tex'') then f @ asc ''.tex'' else f)"

definition dict_get :: "pydict \<Rightarrow> pystr \<Rightarrow> pystr option \<Rightarrow> pystr option" where
  "dict_get d k dflt = (case dict_lookup d k of None \<Rightarrow> dflt | Some v \<Rightarrow> v)"

text \<open>
  The loop of lines 134 to 140. \<open>str.replace\<close> raises \<open>TypeError\<close> when the
  replacement is \<open>None\<close>.
\<close>

fun substitute_includes :: "pydict \<Rightarrow> pystr list \<Rightarrow> pystr \<Rightarrow> py_error + pystr" where
  "substitute_includes file_contents [] main_source = Inr main_source"
| "substitute_includes file_contents (f # fs) main_source =
     (case dict_get file_contents (include_target f) (Some []) of
        None \<Rightarrow> Inl TypeError
      | Some new \<Rightarrow>
          substitute_includes file_contents fs
            (str_replace main_source (input_marker f) new))"

definition flatten :: "pydict \<Rightarrow> pystr \<Rightarrow> py_error + pystr" where
  "flatten file_contents main_tex =
     (case dict_lookup file_contents main_tex of
        None \<Rightarrow> Inl KeyError
      | Some None \<Rightarrow> Inl TypeError
      | Some (Some main_source) \<Rightarrow>
          substitute_includes file_contents
            (re_findall (m_directive (asc ''input'')) main_source
             @ re_findall (m_directive (asc ''include'')) main_source)
            main_source)"

section \<open>The property \<open>tex\<close>\<close>

definition tex_names :: "member list \<Rightarrow> pystr list" where
  "tex_names ms = filter (\<lambda>f. endswith f (asc ''.tex'')) (getnames ms)"

definition bbl_names :: "member list \<Rightarrow> pystr list" where
  "bbl_names ms = filter (\<lambda>f. endswith f (asc ''.bbl'')) (getnames ms)"

definition tex :: "source \<Rightarrow> py_error + pydict option" where
  "tex src =
     (case src of
        NotATar \<Rightarrow> Inr None
      | Tar ms \<Rightarrow>
          (let tex_files = tex_names ms
           in if length tex_files = 0 then Inr None
              else (let bbl_file = bbl_names ms;
                        main_tex = main_from_bbl tex_files bbl_file
                    in case read_files ms tex_files main_tex [] of
                         Inl e \<Rightarrow> Inl e
                       | Inr (Some root, file_contents) \<Rightarrow>
                           (case flatten file_contents root of
                              Inl e \<Rightarrow> Inl e
                            | Inr main_source \<Rightarrow>
                                Inr (Some (dict_set file_contents (asc ''all'')
                                             (Some main_source))))
                       | Inr (None, file_contents) \<Rightarrow>
                           Inr (Some (dict_set file_contents (asc ''all'') None)))))"

section \<open>The section extractor (lines 150 to 173 of \<open>tldr\<close>)\<close>

text \<open>\<open>\{.*?\}\<close>: a \<open>{\<close>, then the shortest run without a newline up to a \<open>}\<close>.\<close>

definition m_braces :: matcher where
  "m_braces s =
     (case s of
        [] \<Rightarrow> None
      | c # cs \<Rightarrow>
          if c = 123
          then (let a = takeWhile (\<lambda>x. x \<noteq> 125 \<and> x \<noteq> 10) cs
                in if startswith (drop (length a) cs) [125]
                   then Some (Suc (length a) + 1) else None)
          else None)"

text \<open>
  \<open>.?\{.*?\}\<close>: the optional character is greedy, so the match with it is tried
  first and the match without it after that.
\<close>

definition m_opt_braces :: matcher where
  "m_opt_braces s =
     (case s of
        [] \<Rightarrow> None
      | c # cs \<Rightarrow>
          (case (if c \<noteq> 10 then m_braces cs else None) of
             Some n \<Rightarrow> Some (Suc n)
           | None \<Rightarrow> m_braces s))"

definition pat_cite :: pystr where
  "pat_cite = 92 # asc ''cite''"

text \<open>\<open>\\cite.?\{.*?\}\<close>\<close>

definition m_cite_cmd :: matcher where
  "m_cite_cmd s =
     (if startswith s pat_cite
      then map_option (\<lambda>n. length pat_cite + n) (m_opt_braces (drop (length pat_cite) s))
      else None)"

text \<open>\<open>~?\\cite.?\{.*?\}\<close>\<close>

definition m_cite :: matcher where
  "m_cite s =
     (case s of
        [] \<Rightarrow> None
      | c # cs \<Rightarrow>
          (case (if c = 126 then m_cite_cmd cs else None) of
             Some n \<Rightarrow> Some (Suc n)
           | None \<Rightarrow> m_cite_cmd s))"

definition pat_section :: pystr where
  "pat_section = 92 # asc ''section''"

definition pat_end_document :: pystr where
  "pat_end_document = 92 # asc ''end{document}''"

definition pat_bibliography :: pystr where
  "pat_bibliography = 92 # asc ''bibliography''"

definition pat_appendix :: pystr where
  "pat_appendix = 92 # asc ''appendix''"

text \<open>
  \<open>(\\section|\\end\{document\}|\\bibliography|\\appendix|$)\<close>: the alternatives in
  their order; \<open>$\<close> matches at the end of the text and before a newline that ends it.
\<close>

definition m_end_word :: matcher where
  "m_end_word s =
     (if startswith s pat_section then Some (length pat_section)
      else if startswith s pat_end_document then Some (length pat_end_document)
      else if startswith s pat_bibliography then Some (length pat_bibliography)
      else if startswith s pat_appendix then Some (length pat_appendix)
      else if s = [] \<or> s = [10] then Some 0
      else None)"

text \<open>
  \<open>.*?(...)\<close> with \<open>re.DOTALL\<close>: the shortest text after which an end word
  matches; the length returned covers the end word. It always matches, at the end of
  the text at the latest.
\<close>

fun m_until_end_word :: "pystr \<Rightarrow> nat" where
  "m_until_end_word [] = 0"
| "m_until_end_word (c # cs) =
     (case m_end_word (c # cs) of
        Some n \<Rightarrow> n
      | None \<Rightarrow> Suc (m_until_end_word cs))"

definition m_section :: "pystr \<Rightarrow> matcher" where
  "m_section heading s =
     (if startswith s heading
      then Some (length heading + m_until_end_word (drop (length heading) s))
      else None)"

definition heading_introduction :: pystr where
  "heading_introduction = 92 # asc ''section{Introduction}''"

definition heading_conclusion :: pystr where
  "heading_conclusion = 92 # asc ''section{Conclusion}''"

definition pat_begin_figure :: pystr where
  "pat_begin_figure = 92 # asc ''begin{figure}''"

definition pat_end_figure :: pystr where
  "pat_end_figure = 92 # asc ''end{figure}''"

definition pat_begin_table :: pystr where
  "pat_begin_table = 92 # asc ''begin{table}''"

definition pat_end_table :: pystr where
  "pat_end_table = 92 # asc ''end{table}''"

text \<open>Lines 157 to 163: citations, figures and tables are removed.\<close>

definition remove_cite_figure_table :: "pystr \<Rightarrow> pystr" where
  "remove_cite_figure_table content =
     re_sub (m_block pat_begin_table pat_end_table) []
       (re_sub (m_block pat_begin_figure pat_end_figure) []
          (re_sub m_cite [] content))"

text \<open>Lines 166 to 173: \<open>match.group(0)\<close>, or the empty string without a match.\<close>

definition find_section :: "pystr \<Rightarrow> pystr \<Rightarrow> pystr" where
  "find_section heading content =
     (case re_search (m_section heading) content of
        Some g \<Rightarrow> g
      | None \<Rightarrow> [])"

definition extract_sections :: "pystr \<Rightarrow> pystr \<times> pystr" where
  "extract_sections content0 =
     (let content = remove_cite_figure_table content0
      in (find_section heading_introduction content,
          find_section heading_conclusion content))"

text \<open>
  Lines 150 to 155: the text the sections are looked for in is the \<open>"all"\<close> entry or,
  when that is \<open>None\<close>, \<open>"\n".join(self.tex.values())\<close>. The result is the pair
  \<open>(introduction, conclusion)\<close> that goes into the prompt.
\<close>

definition tldr_sections :: "pydict option \<Rightarrow> py_error + (pystr \<times> pystr)" where
  "tldr_sections t =
     (case t of
        None \<Rightarrow> Inr ([], [])
      | Some d \<Rightarrow>
          (case dict_get d (asc ''all'') None of
             Some content \<Rightarrow> Inr (extract_sections content)
           | None \<Rightarrow>
               (case str_join [10] (dict_values d) of
                  Inl e \<Rightarrow> Inl e
                | Inr content \<Rightarrow> Inr (extract_sections content))))"

text \<open>\<open>tldr\<close> up to the sections, on the source archive of the paper.\<close>

definition paper_sections :: "source \<Rightarrow> py_error + (pystr \<times> pystr)" where
  "paper_sections src =
     (case tex src of
        Inl e \<Rightarrow> Inl e
      | Inr t \<Rightarrow> tldr_sections t)"

section \<open>Archives of regular files with ASCII content\<close>

definition asc_bytes :: "string \<Rightarrow> bytes" where
  "asc_bytes s = map of_char s"

definition regular_file :: "pystr \<Rightarrow> bytes \<Rightarrow> member" where
  "regular_file name raw = \<lparr>m_name = name, m_data = Some raw\<rparr>"

section \<open>Documents made of plain text and \<open>\input\<close> markers\<close>

text \<open>
  The shape of the documents that the statements about the include flattener are
  about. A text is plain when no backslash in it is followed by the letter \<open>i\<close> or
  stands at its end: no \<open>\input\<close> or \<open>\include\<close> directive starts in it. A name
  is clean when it is not empty and has no backslash, no \<open>}\<close> and no newline. A
  document is a list of segments, plain texts and markers \<open>\input{name}\<close>, and
  \<open>render\<close> is its text.
\<close>

fun plain :: "pystr \<Rightarrow> bool" where
  "plain [] = True"
| "plain [c] = (c \<noteq> 92)"
| "plain (c # d # cs) = ((if c = 92 then d \<noteq> 105 else True) \<and> plain (d # cs))"

definition clean_name :: "pystr \<Rightarrow> bool" where
  "clean_name n = (n \<noteq> [] \<and> 92 \<notin> set n \<and> 125 \<notin> set n \<and> 10 \<notin> set n)"

datatype segment = Txt pystr | Inp pystr

fun wf_segment :: "segment \<Rightarrow> bool" where
  "wf_segment (Txt t) = plain t"
| "wf_segment (Inp n) = clean_name n"

fun render_segment :: "segment \<Rightarrow> pystr" where
  "render_segment (Txt t) = t"
| "render_segment (Inp n) = input_marker n"

definition render :: "segment list \<Rightarrow> pystr" where
  "render segs = concat (map render_segment segs)"

fun input_names :: "segment list \<Rightarrow> pystr list" where
  "input_names [] = []"
| "input_names (Txt t # segs) = input_names segs"
| "input_names (Inp n # segs) = n # input_names segs"

definition include_marker :: "pystr \<Rightarrow> pystr" where
  "include_marker f = 92 # asc ''include{'' @ f @ asc ''}''"

text \<open>
  One pass of the loop of lines 134 to 140 on a document: every marker of the name
  \<open>f\<close> is replaced by the document \<open>cs f\<close> of its target.
\<close>

definition splice_marker :: "(pystr \<Rightarrow> segment list) \<Rightarrow> pystr \<Rightarrow> segment list \<Rightarrow> segment list" where
  "splice_marker cs f cur = concat (map (\<lambda>s. if s = Inp f then cs f else [s]) cur)"

text \<open>The text that stands for a segment of the root once the loop is over.\<close>

fun expand_segment :: "(pystr \<Rightarrow> segment list) \<Rightarrow> segment \<Rightarrow> pystr" where
  "expand_segment cs (Txt t) = t"
| "expand_segment cs (Inp n) = render (cs n)"

section \<open>Texts that the noise stripper leaves as they are\<close>

text \<open>
  Three properties of a text: no newline follows the first \<open>%\<close>; no two newlines
  are adjacent; no run of three or more horizontal whitespace characters starts
  anywhere.
\<close>

definition no_comment_line :: "pystr \<Rightarrow> bool" where
  "no_comment_line s = (10 \<notin> set (dropWhile (\<lambda>c. c \<noteq> 37) s))"

fun single_newlines :: "pystr \<Rightarrow> bool" where
  "single_newlines [] = True"
| "single_newlines [c] = True"
| "single_newlines (c # d # cs) = ((if c = 10 then d \<noteq> 10 else True) \<and> single_newlines (d # cs))"

fun short_spaces :: "pystr \<Rightarrow> bool" where
  "short_spaces [] = True"
| "short_spaces (c # cs) = (length (takeWhile is_hspace (c # cs)) < 3 \<and> short_spaces cs)"

section \<open>Facts about the string methods\<close>

lemma startswith_take: "startswith s p \<longleftrightarrow> take (length p) s = p"
  by (induction s p rule: startswith.induct) auto

lemma startswith_append_same [simp]: "startswith (p @ r) p"
  by (simp add: startswith_take)

lemma startswith_longer:
  "length p \<le> length a \<Longrightarrow> startswith (a @ r) p = startswith a p"
  by (simp add: startswith_take)

lemma find_sub_None_Cons:
  "find_sub p (c # cs) = None \<Longrightarrow> \<not> startswith (c # cs) p \<and> find_sub p cs = None"
  by (auto split: if_splits)

lemma str_replace_Cons_no:
  "p \<noteq> [] \<Longrightarrow> \<not> startswith (c # cs) p \<Longrightarrow>
   str_replace (c # cs) p new = c # str_replace cs p new"
  by (cases p) auto

lemma str_replace_Cons_yes:
  "p \<noteq> [] \<Longrightarrow> startswith (c # cs) p \<Longrightarrow>
   str_replace (c # cs) p new = new @ str_replace (drop (length p) (c # cs)) p new"
  by (cases p) auto

lemma str_replace_no_occurrence:
  "p \<noteq> [] \<Longrightarrow> find_sub p v = None \<Longrightarrow> str_replace v p new = v"
proof (induction v)
  case Nil
  then show ?case by (cases p) auto
next
  case (Cons c v)
  from Cons.prems(2) have "\<not> startswith (c # v) p" "find_sub p v = None"
    by (auto split: if_splits)
  with Cons.IH Cons.prems(1) show ?case by (simp add: str_replace_Cons_no)
qed

lemma str_replace_first_occurrence:
  assumes "p \<noteq> []" and "find_sub p (u @ butlast p) = None"
  shows "str_replace (u @ p @ r) p new = u @ new @ str_replace r p new"
  using assms
proof (induction u)
  case Nil
  have "startswith (p @ r) p" by simp
  moreover obtain c cs where "p @ r = c # cs" using Nil.prems(1) by (cases p) auto
  ultimately show ?case
    using Nil.prems(1) str_replace_Cons_yes [of p c cs new]
    by (metis append_Nil append_eq_conv_conj)
next
  case (Cons c u)
  from Cons.prems(2) have ns: "\<not> startswith (c # u @ butlast p) p"
    and rest: "find_sub p (u @ butlast p) = None"
    by (auto split: if_splits)
  have eq: "c # u @ p @ r = (c # u @ butlast p) @ (last p # r)"
    using Cons.prems(1) by simp
  have "length p \<le> length (c # u @ butlast p)" by simp
  then have "startswith ((c # u @ butlast p) @ (last p # r)) p = startswith (c # u @ butlast p) p"
    by (rule startswith_longer)
  with ns have "\<not> startswith (c # u @ p @ r) p" unfolding eq by blast
  then have "str_replace (c # u @ p @ r) p new = c # str_replace (u @ p @ r) p new"
    using Cons.prems(1) by (simp add: str_replace_Cons_no)
  with Cons.IH [OF Cons.prems(1) rest] show ?case by simp
qed

lemma str_replace_every_occurrence:
  assumes "p \<noteq> []"
    and "\<forall>u\<in>set us. find_sub p (u @ butlast p) = None"
    and "find_sub p v = None"
  shows "str_replace (concat (map (\<lambda>u. u @ p) us) @ v) p new
         = concat (map (\<lambda>u. u @ new) us) @ v"
  using assms
proof (induction us)
  case Nil
  then show ?case by (simp add: str_replace_no_occurrence)
next
  case (Cons u us)
  have "str_replace (u @ p @ (concat (map (\<lambda>u. u @ p) us) @ v)) p new
        = u @ new @ str_replace (concat (map (\<lambda>u. u @ p) us) @ v) p new"
    using Cons.prems by (intro str_replace_first_occurrence) auto
  with Cons show ?case by simp
qed

lemma str_join_None:
  "None \<in> set xs \<Longrightarrow> str_join sep xs = Inl TypeError"
  by (induction sep xs rule: str_join.induct) auto

lemma dict_lookup_in_values:
  "dict_lookup d k = Some v \<Longrightarrow> v \<in> set (dict_values d)"
  by (induction d) (auto simp: dict_values_def split: if_splits)

lemma tldr_sections_null_all:
  "dict_lookup d (asc ''all'') = Some None \<Longrightarrow> tldr_sections (Some d) = Inl TypeError"
  by (simp add: tldr_sections_def dict_get_def str_join_None dict_lookup_in_values)

section \<open>The claims\<close>

text \<open>
  C1 (fails on the code). The claim: when the archive yields \<open>.tex\<close> files but no root,
  the \<open>"all"\<close> entry is null and the fallback that joins all file contents
  completes without raising. On an archive of two \<open>.tex\<close> files without a
  \<open>\begin{document}\<close> and without a \<open>.bbl\<close> file the \<open>"all"\<close> entry is null, as the
  claim says, but the null entry is itself one of the values that are joined, and
  \<open>"\n".join\<close> raises \<open>TypeError\<close>.
\<close>

theorem fallback_join_raises_TypeError:
  "tex (Tar [regular_file (asc ''a.tex'') (asc_bytes ''hello''),
             regular_file (asc ''b.tex'') (asc_bytes ''world'')])
     = Inr (Some [(asc ''a.tex'', Some (asc ''hello'')),
                  (asc ''b.tex'', Some (asc ''world'')),
                  (asc ''all'', None)])
   \<and> paper_sections (Tar [regular_file (asc ''a.tex'') (asc_bytes ''hello''),
                         regular_file (asc ''b.tex'') (asc_bytes ''world'')])
     = Inl TypeError"
  by code_simp

text \<open>
  C10. With exactly one \<open>.bbl\<close> member the candidate for the root is the name of that
  member with every occurrence of \<open>.bbl\<close> deleted, followed by \<open>.tex\<close>: when the
  name is \<open>u\<^sub>1.bbl u\<^sub>2.bbl \<dots> u\<^sub>n.bbl v\<close>, each \<open>.bbl\<close> shown being the first
  one after the text before it, the candidate is \<open>u\<^sub>1 u\<^sub>2 \<dots> u\<^sub>n v.tex\<close>, and it
  is the root exactly when it is one of the \<open>.tex\<close> members.
\<close>

theorem bbl_candidate_deletes_every_bbl:
  assumes "bbl_names ms = [concat (map (\<lambda>u. u @ asc ''.bbl'') us) @ v]"
    and "\<forall>u\<in>set us. find_sub (asc ''.bbl'') (u @ asc ''.bb'') = None"
    and "find_sub (asc ''.bbl'') v = None"
  shows "main_from_bbl (tex_names ms) (bbl_names ms)
         = (if concat us @ v @ asc ''.tex'' \<in> set (tex_names ms)
            then Some (concat us @ v @ asc ''.tex'') else None)"
proof -
  have b: "butlast (asc ''.bbl'') = asc ''.bb''" by (simp add: asc_def)
  have ne: "asc ''.bbl'' \<noteq> []" by (simp add: asc_def)
  have "str_replace (concat (map (\<lambda>u. u @ asc ''.bbl'') us) @ v) (asc ''.bbl'') []
        = concat (map (\<lambda>u. u @ []) us) @ v"
    using ne assms(2,3) by (intro str_replace_every_occurrence) (auto simp: b)
  then show ?thesis by (simp add: main_from_bbl_def assms(1))
qed

text \<open>The member \<open>a.bbl.bbl\<close> gives the candidate \<open>a.tex\<close>, not \<open>a.bbl.tex\<close>.\<close>

theorem bbl_candidate_deletes_every_bbl_witness:
  "bbl_names [regular_file (asc ''a.tex'') [], regular_file (asc ''a.bbl.tex'') [],
              regular_file (asc ''a.bbl.bbl'') []] = [asc ''a.bbl.bbl'']
   \<and> main_from_bbl
       (tex_names [regular_file (asc ''a.tex'') [], regular_file (asc ''a.bbl.tex'') [],
                   regular_file (asc ''a.bbl.bbl'') []])
       (bbl_names [regular_file (asc ''a.tex'') [], regular_file (asc ''a.bbl.tex'') [],
                   regular_file (asc ''a.bbl.bbl'') []])
     = Some (asc ''a.tex'')"
proof -
  let ?ms = "[regular_file (asc ''a.tex'') [], regular_file (asc ''a.bbl.tex'') [],
              regular_file (asc ''a.bbl.bbl'') []]"
  have h1: "bbl_names ?ms = [concat (map (\<lambda>u. u @ asc ''.bbl'') [asc ''a'', []]) @ []]"
    by code_simp
  have h2: "\<forall>u\<in>set [asc ''a'', []]. find_sub (asc ''.bbl'') (u @ asc ''.bb'') = None"
    by (simp add: asc_def)
  have h3: "find_sub (asc ''.bbl'') [] = None"
    by (simp add: asc_def)
  have e: "(if concat [asc ''a'', []] @ [] @ asc ''.tex'' \<in> set (tex_names ?ms)
            then Some (concat [asc ''a'', []] @ [] @ asc ''.tex'') else None)
           = Some (asc ''a.tex'')"
    by code_simp
  have n: "bbl_names ?ms = [asc ''a.bbl.bbl'']" by code_simp
  from bbl_candidate_deletes_every_bbl [OF h1 h2 h3] e n show ?thesis
    by (simp only: simp_thms)
qed

section \<open>Facts about the file table\<close>

lemma dict_lookup_dict_set:
  "dict_lookup (dict_set d k v) k' = (if k' = k then Some v else dict_lookup d k')"
  by (induction d) auto

lemma dict_keys_dict_set_list:
  "dict_keys (dict_set d k v)
   = (if k \<in> set (dict_keys d) then dict_keys d else dict_keys d @ [k])"
proof (induction d)
  case Nil
  then show ?case by (simp add: dict_keys_def)
next
  case (Cons a d)
  obtain k' v' where a: "a = (k', v')" by (cases a)
  from Cons show ?case by (force simp: dict_keys_def a)
qed

lemma dict_keys_dict_set:
  "set (dict_keys (dict_set d k v)) = insert k (set (dict_keys d))"
  by (auto simp: dict_keys_dict_set_list)

lemma dict_set_new_key:
  "k \<notin> set (dict_keys d) \<Longrightarrow> dict_set d k v = d @ [(k, v)]"
  by (induction d) (auto simp: dict_keys_def)

lemma read_files_entries:
  assumes "read_files ms ts mt fc = Inr (mt', fc')"
  shows "set (dict_keys fc') = set (dict_keys fc) \<union> set ts
       \<and> (\<forall>t\<in>set ts. \<exists>raw. read_member ms t = Inr raw
                \<and> dict_lookup fc' t = Some (Some (process_file raw)))
       \<and> (\<forall>t. t \<notin> set ts \<longrightarrow> dict_lookup fc' t = dict_lookup fc t)"
  using assms
proof (induction ts arbitrary: mt fc)
  case Nil
  then show ?case by simp
next
  case (Cons t ts)
  from Cons.prems obtain raw where raw: "read_member ms t = Inr raw"
    by (cases "read_member ms t") auto
  define fc1 where "fc1 = dict_set fc t (Some (process_file raw))"
  from Cons.prems raw obtain mt1 where rec: "read_files ms ts mt1 fc1 = Inr (mt', fc')"
    by (auto simp: Let_def fc1_def)
  note IH = Cons.IH [OF rec]
  have keys: "set (dict_keys fc') = set (dict_keys fc) \<union> set (t # ts)"
    using IH by (auto simp: fc1_def dict_keys_dict_set)
  have other: "\<forall>t'. t' \<notin> set (t # ts) \<longrightarrow> dict_lookup fc' t' = dict_lookup fc t'"
    using IH by (simp add: fc1_def dict_lookup_dict_set)
  have head: "\<exists>r. read_member ms t = Inr r \<and> dict_lookup fc' t = Some (Some (process_file r))"
  proof (cases "t \<in> set ts")
    case True
    with IH show ?thesis by blast
  next
    case False
    with IH have "dict_lookup fc' t = dict_lookup fc1 t" by blast
    then show ?thesis using raw by (simp add: fc1_def dict_lookup_dict_set)
  qed
  have "\<forall>t'\<in>set (t # ts). \<exists>r. read_member ms t' = Inr r
            \<and> dict_lookup fc' t' = Some (Some (process_file r))"
    using head IH by auto
  with keys other show ?case by blast
qed

lemma tex_names_end_with_tex:
  "t \<in> set (tex_names ms) \<Longrightarrow> endswith t (asc ''.tex'')"
  by (simp add: tex_names_def)

lemma all_not_tex: "\<not> endswith (asc ''all'') (asc ''.tex'')"
  by (simp add: endswith_def asc_def)

lemma tex_result:
  assumes "tex (Tar ms) = Inr (Some d)"
  shows "\<exists>mt fc v. read_files ms (tex_names ms)
                      (main_from_bbl (tex_names ms) (bbl_names ms)) [] = Inr (mt, fc)
                  \<and> d = dict_set fc (asc ''all'') v"
  using assms
  by (auto simp: tex_def Let_def split: if_splits sum.splits option.splits prod.splits)

lemma filetable_entry:
  assumes "tex (Tar ms) = Inr (Some d)" and "t \<in> set (tex_names ms)"
  shows "\<exists>raw. read_member ms t = Inr raw
           \<and> dict_lookup d t = Some (Some (process_file raw))"
proof -
  from tex_result [OF assms(1)] obtain mt fc v
    where rf: "read_files ms (tex_names ms)
                 (main_from_bbl (tex_names ms) (bbl_names ms)) [] = Inr (mt, fc)"
      and d: "d = dict_set fc (asc ''all'') v"
    by blast
  from read_files_entries [OF rf] assms(2) obtain raw
    where raw: "read_member ms t = Inr raw"
      and e: "dict_lookup fc t = Some (Some (process_file raw))"
    by blast
  have "t \<noteq> asc ''all''" using assms(2) tex_names_end_with_tex all_not_tex by blast
  with raw e show ?thesis by (simp add: d dict_lookup_dict_set)
qed

text \<open>
  C9. Every key of the table that \<open>tex\<close> returns, the key \<open>"all"\<close> apart, ends
  with \<open>.tex\<close>. So \<open>"all"\<close> is a new key when it is stored: the table is the
  table of the files with the \<open>"all"\<close> entry after it, and the entry of every
  \<open>.tex\<close> member is still the processed content of that member.
\<close>

theorem filetable_keys_end_with_tex:
  assumes "tex (Tar ms) = Inr (Some d)"
  shows "(\<forall>k\<in>set (dict_keys d). k \<noteq> asc ''all'' \<longrightarrow> endswith k (asc ''.tex''))
       \<and> (\<exists>file_contents v. d = file_contents @ [(asc ''all'', v)]
              \<and> set (dict_keys file_contents) = set (tex_names ms))
       \<and> (\<forall>t\<in>set (tex_names ms). \<exists>raw. read_member ms t = Inr raw
              \<and> dict_lookup d t = Some (Some (process_file raw)))"
proof -
  from tex_result [OF assms] obtain mt fc v
    where rf: "read_files ms (tex_names ms)
                 (main_from_bbl (tex_names ms) (bbl_names ms)) [] = Inr (mt, fc)"
      and d: "d = dict_set fc (asc ''all'') v"
    by blast
  note E = read_files_entries [OF rf]
  have keys: "set (dict_keys fc) = set (tex_names ms)"
    using E by (simp add: dict_keys_def)
  have fresh: "asc ''all'' \<notin> set (dict_keys fc)"
    using keys tex_names_end_with_tex all_not_tex by blast
  have app: "d = fc @ [(asc ''all'', v)]"
    using fresh by (simp add: d dict_set_new_key)
  have 1: "\<forall>k\<in>set (dict_keys d). k \<noteq> asc ''all'' \<longrightarrow> endswith k (asc ''.tex'')"
    using keys tex_names_end_with_tex by (auto simp: d dict_keys_dict_set)
  have 3: "\<forall>t\<in>set (tex_names ms). \<exists>raw. read_member ms t = Inr raw
              \<and> dict_lookup d t = Some (Some (process_file raw))"
  proof
    fix t assume t: "t \<in> set (tex_names ms)"
    then have "t \<noteq> asc ''all''" using tex_names_end_with_tex all_not_tex by blast
    with E t show "\<exists>raw. read_member ms t = Inr raw
              \<and> dict_lookup d t = Some (Some (process_file raw))"
      by (simp add: d dict_lookup_dict_set)
  qed
  from 1 app keys 3 show ?thesis by blast
qed

theorem filetable_keys_end_with_tex_witness:
  "tex (Tar [regular_file (asc ''a.tex'') (asc_bytes ''hello''),
             regular_file (asc ''b.tex'') (asc_bytes ''world'')])
     = Inr (Some [(asc ''a.tex'', Some (asc ''hello'')),
                  (asc ''b.tex'', Some (asc ''world'')),
                  (asc ''all'', None)])
   \<and> endswith (asc ''b.tex'') (asc ''.tex'')"
proof -
  let ?d = "[(asc ''a.tex'', Some (asc ''hello'')),
             (asc ''b.tex'', Some (asc ''world'')),
             (asc ''all'', None)]"
  have h: "tex (Tar [regular_file (asc ''a.tex'') (asc_bytes ''hello''),
             regular_file (asc ''b.tex'') (asc_bytes ''world'')])
     = Inr (Some ?d)"
    by code_simp
  have k: "asc ''b.tex'' \<in> set (dict_keys ?d)" by (simp add: dict_keys_def)
  have n: "asc ''b.tex'' \<noteq> asc ''all''" by (simp add: asc_def)
  from filetable_keys_end_with_tex [OF h] k n have "endswith (asc ''b.tex'') (asc ''.tex'')"
    by blast
  with h show ?thesis by blast
qed

section \<open>Facts about the decoder\<close>

lemma list_shape4:
  "rest = [] \<or> (\<exists>a. rest = [a]) \<or> (\<exists>a b. rest = [a, b]) \<or> (\<exists>a b c r. rest = a # b # c # r)"
  by (metis list.exhaust)

lemma utf8_step_before_non_continuation:
  assumes "\<not> is_continuation b"
  shows "utf8_step ch (rest @ b # ys) = utf8_step ch rest"
proof -
  consider "rest = []" | a where "rest = [a]" | a c where "rest = [a, c]"
    | a c d r where "rest = a # c # d # r"
    using list_shape4 [of rest] by blast
  then show ?thesis
  proof cases
    case 1
    then show ?thesis using assms by (simp add: utf8_step_def word_le_nat_alt word_less_nat_alt split: list.splits) (simp add: not_less not_le)?
  next
    case 2
    then show ?thesis using assms by (simp add: utf8_step_def word_le_nat_alt word_less_nat_alt split: list.splits) (simp add: not_less not_le)?
  next
    case 3
    then show ?thesis using assms by (simp add: utf8_step_def word_le_nat_alt word_less_nat_alt split: list.splits) (simp add: not_less not_le)?
  next
    case 4
    then show ?thesis by (simp add: utf8_step_def)
  qed
qed

lemma utf8_step_length: "snd (utf8_step ch rest) \<le> length rest"
  by (simp add: utf8_step_def split: list.splits)

lemma utf8_step_invalid_start:
  "b = 0xC0 \<or> b = 0xC1 \<or> 0xF5 \<le> b \<Longrightarrow> utf8_step b ys = (None, 0)"
  by (auto simp: utf8_step_def word_le_nat_alt word_less_nat_alt)

lemma invalid_start_not_continuation:
  "b = 0xC0 \<or> b = 0xC1 \<or> 0xF5 \<le> b \<Longrightarrow> \<not> is_continuation b"
  by (auto simp: is_continuation_def word_le_nat_alt word_less_nat_alt)

lemma utf8_decode_ignore_invalid_byte:
  assumes "b = 0xC0 \<or> b = 0xC1 \<or> 0xF5 \<le> b"
  shows "utf8_decode_ignore (xs @ b # ys) = utf8_decode_ignore xs @ utf8_decode_ignore ys"
proof (induction xs rule: length_induct)
  case (1 xs)
  show ?case
  proof (cases xs)
    case Nil
    then show ?thesis by (simp add: utf8_step_invalid_start [OF assms])
  next
    case (Cons ch rest)
    obtain r k where st: "utf8_step ch rest = (r, k)" by (cases "utf8_step ch rest")
    have k: "k \<le> length rest" using utf8_step_length [of ch rest] st by simp
    have st': "utf8_step ch (rest @ b # ys) = (r, k)"
      using utf8_step_before_non_continuation [OF invalid_start_not_continuation [OF assms]] st
      by simp
    have "length (drop k rest) < length xs" by (simp add: Cons)
    with 1 have IH: "utf8_decode_ignore (drop k rest @ b # ys)
                = utf8_decode_ignore (drop k rest) @ utf8_decode_ignore ys" by blast
    show ?thesis using st st' k IH by (cases r) (simp_all add: Cons)
  qed
qed


section \<open>The claims about the archive\<close>

text \<open>
  C3 (fails on the code). The claim: with exactly one \<open>.bbl\<close> member whose stem is
  the stem of a \<open>.tex\<close> member, that \<open>.tex\<close> member is the root. The members
  \<open>a.bbl.bbl\<close> and \<open>a.bbl.tex\<close> have the same stem \<open>a.bbl\<close>, but line 94 deletes
  both occurrences of \<open>.bbl\<close>, the candidate \<open>a.tex\<close> is no member, the rule
  gives no root, and the scan for \<open>\begin{document}\<close> takes \<open>other.tex\<close>: the
  \<open>"all"\<close> entry is the content of \<open>other.tex\<close>.
\<close>

theorem bbl_stem_with_inner_bbl_not_selected:
  "main_from_bbl [asc ''other.tex'', asc ''a.bbl.tex''] [asc ''a.bbl.bbl''] = None
   \<and> tex (Tar [regular_file (asc ''other.tex'') (0x5C # asc_bytes ''begin{document}O''),
               regular_file (asc ''a.bbl.tex'') (0x5C # asc_bytes ''begin{document}A''),
               regular_file (asc ''a.bbl.bbl'') []])
     = Inr (Some [(asc ''other.tex'', Some (92 # asc ''begin{document}O'')),
                  (asc ''a.bbl.tex'', Some (92 # asc ''begin{document}A'')),
                  (asc ''all'', Some (92 # asc ''begin{document}O''))])"
  by code_simp




section \<open>Facts about the regular expressions\<close>

lemma re_sub_no_match:
  "m (c # cs) = None \<Longrightarrow> re_sub m repl (c # cs) = c # re_sub m repl cs"
  by simp

lemma re_sub_match:
  "m (c # cs) = Some n \<Longrightarrow> 0 < n \<Longrightarrow>
   re_sub m repl (c # cs) = repl @ re_sub m repl (drop n (c # cs))"
  by (cases n) auto

lemma re_search_no_match:
  "m (c # cs) = None \<Longrightarrow> re_search m (c # cs) = re_search m cs"
  by simp

lemma re_search_match:
  "m (c # cs) = Some n \<Longrightarrow> 0 < n \<Longrightarrow> re_search m (c # cs) = Some (take n (c # cs))"
  by (cases n) auto

declare re_sub.simps(2) [simp del]

lemma takeWhile_line: "e \<notin> set l \<Longrightarrow> takeWhile (\<lambda>x. x \<noteq> e) (l @ e # rest) = l"
  by (induction l) auto

lemma remove_line_comments_line:
  "10 \<notin> set l \<Longrightarrow>
   remove_line_comments (l @ 10 # rest)
   = takeWhile (\<lambda>c. c \<noteq> 37) l @ 10 # remove_line_comments rest"
proof (induction l)
  case Nil
  have "m_line_comment (10 # rest) = None" by (simp add: m_line_comment_def)
  then show ?case by (simp add: remove_line_comments_def re_sub_no_match)
next
  case (Cons c l)
  show ?case
  proof (cases "c = 37")
    case True
    have "m_line_comment (c # l @ 10 # rest) = Some (Suc (Suc (length l)))"
      using Cons.prems True by (simp add: m_line_comment_def takeWhile_line)
    then have "re_sub m_line_comment [10] (c # l @ 10 # rest)
               = [10] @ re_sub m_line_comment [10] (drop (Suc (Suc (length l))) (c # l @ 10 # rest))"
      by (rule re_sub_match) simp
    then show ?thesis using True by (simp add: remove_line_comments_def)
  next
    case False
    then have "m_line_comment (c # l @ 10 # rest) = None" by (simp add: m_line_comment_def)
    then have "re_sub m_line_comment [10] (c # l @ 10 # rest)
               = c # re_sub m_line_comment [10] (l @ 10 # rest)"
      by (rule re_sub_no_match)
    with Cons False show ?thesis by (simp add: remove_line_comments_def)
  qed
qed

lemma remove_line_comments_last:
  "10 \<notin> set l \<Longrightarrow> remove_line_comments l = l"
proof (induction l)
  case Nil
  then show ?case by (simp add: remove_line_comments_def)
next
  case (Cons c l)
  then have "m_line_comment (c # l) = None" by (simp add: m_line_comment_def)
  then have "re_sub m_line_comment [10] (c # l) = c # re_sub m_line_comment [10] l"
    by (rule re_sub_no_match)
  with Cons show ?case by (simp add: remove_line_comments_def)
qed

lemma m_until_end_word_skip:
  "\<forall>i<length B. m_end_word (drop i (B @ T)) = None \<Longrightarrow>
   m_until_end_word (B @ T) = length B + m_until_end_word T"
proof (induction B)
  case Nil
  then show ?case by simp
next
  case (Cons b B)
  have "0 < length (b # B)" by simp
  with Cons.prems have "m_end_word (drop 0 ((b # B) @ T)) = None" by blast
  then have 0: "m_end_word (b # B @ T) = None" by simp
  have "\<forall>i<length B. m_end_word (drop i (B @ T)) = None"
  proof (intro allI impI)
    fix i assume "i < length B"
    then have "Suc i < length (b # B)" by simp
    with Cons.prems have "m_end_word (drop (Suc i) ((b # B) @ T)) = None" by blast
    then show "m_end_word (drop i (B @ T)) = None" by simp
  qed
  with Cons.IH 0 show ?case by simp
qed

lemma m_end_word_at_end_word:
  assumes "tok \<in> {pat_section, pat_end_document, pat_bibliography, pat_appendix}"
  shows "m_end_word (tok @ C) = Some (length tok)"
  using assms
  by (auto simp: m_end_word_def pat_section_def pat_end_document_def pat_bibliography_def
        pat_appendix_def asc_def)

lemma m_until_end_word_at_end_word:
  assumes "tok \<in> {pat_section, pat_end_document, pat_bibliography, pat_appendix}"
  shows "m_until_end_word (tok @ C) = length tok"
proof -
  from assms have "tok \<noteq> []"
    by (auto simp: pat_section_def pat_end_document_def pat_bibliography_def pat_appendix_def)
  then obtain c cs where "tok @ C = c # cs" by (cases tok) auto
  with m_end_word_at_end_word [OF assms, of C] show ?thesis by simp
qed

lemma re_search_section_first:
  assumes "H \<noteq> []"
    and "\<forall>i<length A. \<not> startswith (drop i (A @ H @ R)) H"
  shows "re_search (m_section H) (A @ H @ R) = Some (H @ take (m_until_end_word R) R)"
  using assms(2)
proof (induction A)
  case Nil
  from assms(1) obtain c cs where cs: "H @ R = c # cs" by (cases H) auto
  have "m_section H (H @ R) = Some (length H + m_until_end_word R)"
    by (simp add: m_section_def startswith_take)
  then have "re_search (m_section H) (c # cs) = Some (take (length H + m_until_end_word R) (c # cs))"
    unfolding cs using assms(1) by (intro re_search_match) auto
  then show ?case by (simp add: cs [symmetric])
next
  case (Cons a A)
  have "0 < length (a # A)" by simp
  with Cons.prems have "\<not> startswith (drop 0 ((a # A) @ H @ R)) H" by blast
  then have "\<not> startswith (a # A @ H @ R) H" by simp
  then have n: "m_section H (a # A @ H @ R) = None" by (simp add: m_section_def)
  have "\<forall>i<length A. \<not> startswith (drop i (A @ H @ R)) H"
  proof (intro allI impI)
    fix i assume "i < length A"
    then have "Suc i < length (a # A)" by simp
    with Cons.prems have "\<not> startswith (drop (Suc i) ((a # A) @ H @ R)) H" by blast
    then show "\<not> startswith (drop i (A @ H @ R)) H" by simp
  qed
  with Cons.IH n show ?case by simp
qed

section \<open>The claims about the noise stripper and the section extractor\<close>




text \<open>
  C4 (fails on the code as stated). The claim: the introduction is the span from
  \<open>\section{Introduction}\<close> to the next end word, the end word excluded. The
  source returns \<open>match.group(0)\<close>, which includes the end word: before
  \<open>\section{Methods}\<close> the introduction ends with \<open>\section\<close>.
\<close>

theorem introduction_excludes_end_word_counterexample:
  "fst (extract_sections
          (heading_introduction @ asc ''Hello'' @ pat_section @ asc ''{Methods}M''))
     = heading_introduction @ asc ''Hello'' @ pat_section
   \<and> fst (extract_sections
          (heading_introduction @ asc ''Hello'' @ pat_section @ asc ''{Methods}M''))
     \<noteq> heading_introduction @ asc ''Hello''"
  by code_simp

text \<open>
  C4 as amended. Let the text, after citations, figures and tables are removed, be
  \<open>A \section{Introduction} B tok C\<close>, where the heading does not occur before the
  one shown, \<open>tok\<close> is one of the end words \<open>\section\<close>, \<open>\end{document}\<close>,
  \<open>\bibliography\<close> and \<open>\appendix\<close>, and no end word (nor the end of the text)
  matches at a position inside \<open>B\<close>. Then the introduction is the span
  \<open>\section{Introduction} B tok\<close>: it ends with the end word itself and with
  nothing after it.
\<close>

theorem introduction_span_ends_with_end_word:
  assumes "remove_cite_figure_table text = A @ heading_introduction @ B @ tok @ C"
    and "\<forall>i<length A. \<not> startswith (drop i (A @ heading_introduction @ B @ tok @ C))
                            heading_introduction"
    and "tok \<in> {pat_section, pat_end_document, pat_bibliography, pat_appendix}"
    and "\<forall>i<length B. m_end_word (drop i (B @ tok @ C)) = None"
  shows "fst (extract_sections text) = heading_introduction @ B @ tok"
proof -
  have ne: "heading_introduction \<noteq> []" by (simp add: heading_introduction_def)
  have "m_until_end_word ((B @ tok) @ C) = length B + length tok"
    using m_until_end_word_skip [OF assms(4)] m_until_end_word_at_end_word [OF assms(3)]
    by simp
  then have "take (m_until_end_word (B @ tok @ C)) (B @ tok @ C) = B @ tok"
    by simp
  with re_search_section_first [OF ne assms(2)]
  have "re_search (m_section heading_introduction)
          (A @ heading_introduction @ B @ tok @ C) = Some (heading_introduction @ B @ tok)"
    by simp
  then show ?thesis
    by (simp add: extract_sections_def find_section_def Let_def assms(1))
qed

theorem introduction_span_ends_with_end_word_witness:
  "fst (extract_sections (heading_introduction @ asc ''Hello'' @ pat_section @ asc ''{Methods}M''))
   = heading_introduction @ asc ''Hello'' @ pat_section"
proof -
  have 1: "remove_cite_figure_table
             (heading_introduction @ asc ''Hello'' @ pat_section @ asc ''{Methods}M'')
           = [] @ heading_introduction @ asc ''Hello'' @ pat_section @ asc ''{Methods}M''"
    by code_simp
  have 2: "\<forall>i<length ([] :: pystr).
             \<not> startswith (drop i ([] @ heading_introduction @ asc ''Hello'' @ pat_section
                                     @ asc ''{Methods}M'')) heading_introduction"
    by simp
  have 3: "pat_section \<in> {pat_section, pat_end_document, pat_bibliography, pat_appendix}"
    by simp
  have 4: "\<forall>i<length (asc ''Hello'').
             m_end_word (drop i (asc ''Hello'' @ pat_section @ asc ''{Methods}M'')) = None"
    by code_simp
  from introduction_span_ends_with_end_word [OF 1 2 3 4] show ?thesis .
qed

section \<open>Facts about the include flattener\<close>

lemma re_findall_no_match:
  "m (c # cs) = None \<Longrightarrow> re_findall m (c # cs) = re_findall m cs"
  by simp

lemma re_findall_match:
  "m (c # cs) = Some (n, g) \<Longrightarrow> 0 < n \<Longrightarrow>
   re_findall m (c # cs) = g # re_findall m (drop n (c # cs))"
  by (cases n) auto

declare re_findall.simps(2) [simp del]

lemma plain_tl: "plain (c # cs) \<Longrightarrow> plain cs"
  by (cases cs) auto

lemma plain_no_directive:
  assumes "plain (c # cs)"
  shows "\<not> startswith (c # cs @ r) (92 # 105 # p)"
proof (cases cs)
  case Nil
  with assms show ?thesis by simp
next
  case (Cons d ds)
  with assms show ?thesis by auto
qed

lemma no_backslash_plain: "92 \<notin> set t \<Longrightarrow> plain t"
  by (induction t rule: plain.induct) auto

lemma plain_append: "plain a \<Longrightarrow> plain b \<Longrightarrow> plain (a @ b)"
proof (induction a rule: plain.induct)
  case 1
  then show ?case by simp
next
  case (2 c)
  then show ?case by (cases b) auto
next
  case (3 c d cs)
  then show ?case by simp
qed

lemma input_marker_shape: "input_marker f = 92 # 105 # asc ''nput{'' @ f @ [125]"
  by (simp add: input_marker_def asc_def)

lemma include_marker_shape: "include_marker f = 92 # 105 # asc ''nclude{'' @ f @ [125]"
  by (simp add: include_marker_def asc_def)

lemma str_replace_plain:
  assumes "plain t"
  shows "str_replace (t @ r) (input_marker f) new = t @ str_replace r (input_marker f) new"
  using assms
proof (induction t)
  case Nil
  then show ?case by simp
next
  case (Cons c t)
  have "\<not> startswith (c # t @ r) (input_marker f)"
    unfolding input_marker_shape by (rule plain_no_directive [OF Cons.prems])
  then have "str_replace (c # t @ r) (input_marker f) new
             = c # str_replace (t @ r) (input_marker f) new"
    by (intro str_replace_Cons_no) (simp_all add: input_marker_shape)
  with Cons.IH [OF plain_tl [OF Cons.prems]] show ?case by simp
qed

lemma find_sub_plain:
  assumes "plain t"
  shows "find_sub (92 # 105 # p) t = None"
  using assms
proof (induction t)
  case Nil
  then show ?case by simp
next
  case (Cons c t)
  have "\<not> startswith (c # t @ []) (92 # 105 # p)"
    by (rule plain_no_directive [OF Cons.prems])
  with Cons.IH [OF plain_tl [OF Cons.prems]] show ?case by simp
qed

lemma startswith_short: "length s < length p \<Longrightarrow> \<not> startswith s p"
  by (auto simp: startswith_take)

lemma find_sub_short: "length s < length p \<Longrightarrow> find_sub p s = None"
proof (induction s)
  case Nil
  then show ?case by auto
next
  case (Cons c s)
  then show ?case using startswith_short [of "c # s" p] by simp
qed

lemma same_name:
  assumes "e \<notin> set f" and "e \<notin> set n"
    and "take (length (f @ [e])) (n @ e # r) = f @ [e]"
  shows "f = n"
  using assms
proof (induction f arbitrary: n)
  case Nil
  then show ?case by (cases n) auto
next
  case (Cons a f)
  then show ?case by (cases n) auto
qed

lemma other_marker_no_match:
  assumes "clean_name n" and "clean_name f" and "n \<noteq> f"
  shows "\<not> startswith (input_marker n @ r) (input_marker f)"
proof
  assume "startswith (input_marker n @ r) (input_marker f)"
  then have "take (length (f @ [125])) (n @ 125 # r) = f @ [125]"
    by (simp add: startswith_take input_marker_shape asc_def)
  with assms show False using same_name [of 125 f n r] by (simp add: clean_name_def)
qed

lemma marker_tail_plain:
  assumes "clean_name n"
  shows "plain (105 # asc ''nput{'' @ n @ [125])"
  using assms by (intro no_backslash_plain) (auto simp: clean_name_def asc_def)

lemma str_replace_marker:
  assumes "clean_name n" and "clean_name f"
  shows "str_replace (input_marker n @ r) (input_marker f) new
         = (if n = f then new else input_marker n) @ str_replace r (input_marker f) new"
proof (cases "n = f")
  case True
  have ne: "input_marker f \<noteq> []" by (simp add: input_marker_shape)
  have "str_replace ([] @ input_marker f @ r) (input_marker f) new
        = [] @ new @ str_replace r (input_marker f) new"
  proof (rule str_replace_first_occurrence [OF ne])
    show "find_sub (input_marker f) ([] @ butlast (input_marker f)) = None"
      using ne by (intro find_sub_short) (simp add: input_marker_shape)
  qed
  with True show ?thesis by simp
next
  case False
  have "\<not> startswith (input_marker n @ r) (input_marker f)"
    by (rule other_marker_no_match [OF assms False])
  then have "str_replace (92 # (105 # asc ''nput{'' @ n @ [125]) @ r) (input_marker f) new
             = 92 # str_replace ((105 # asc ''nput{'' @ n @ [125]) @ r) (input_marker f) new"
    by (intro str_replace_Cons_no) (simp_all add: input_marker_shape)
  also have "str_replace ((105 # asc ''nput{'' @ n @ [125]) @ r) (input_marker f) new
             = (105 # asc ''nput{'' @ n @ [125]) @ str_replace r (input_marker f) new"
    by (rule str_replace_plain [OF marker_tail_plain [OF assms(1)]])
  finally show ?thesis using False by (simp add: input_marker_shape)
qed


lemma render_Cons: "render (s # segs) = render_segment s @ render segs"
  by (simp add: render_def)

lemma render_append: "render (a @ b) = render a @ render b"
  by (simp add: render_def)

lemma str_replace_render:
  assumes "\<forall>s\<in>set segs. wf_segment s" and "clean_name f"
  shows "str_replace (render segs) (input_marker f) new
         = concat (map (\<lambda>s. if s = Inp f then new else render_segment s) segs)"
  using assms(1)
proof (induction segs)
  case Nil
  then show ?case by (simp add: render_def input_marker_shape)
next
  case (Cons s segs)
  then have IH: "str_replace (render segs) (input_marker f) new
         = concat (map (\<lambda>s. if s = Inp f then new else render_segment s) segs)"
    by simp
  show ?case
  proof (cases s)
    case (Txt t)
    with Cons.prems have "plain t" by simp
    then show ?thesis using IH by (simp add: Txt render_Cons str_replace_plain)
  next
    case (Inp n)
    with Cons.prems have "clean_name n" by simp
    then show ?thesis using IH assms(2)
      by (simp add: Inp render_Cons str_replace_marker)
  qed
qed

lemma m_directive_plain:
  assumes "plain (c # cs)"
  shows "m_directive (105 # cmd) (c # cs @ r) = None"
proof -
  have "\<not> startswith (c # cs @ r) (92 # (105 # cmd) @ [123])"
    using plain_no_directive [OF assms, of r "cmd @ [123]"] by simp
  then show ?thesis unfolding m_directive_def Let_def by (rule if_not_P)
qed

lemma re_findall_plain:
  assumes "plain t"
  shows "re_findall (m_directive (105 # cmd)) (t @ r) = re_findall (m_directive (105 # cmd)) r"
  using assms
proof (induction t)
  case Nil
  then show ?case by simp
next
  case (Cons c t)
  have "re_findall (m_directive (105 # cmd)) (c # t @ r)
        = re_findall (m_directive (105 # cmd)) (t @ r)"
    using m_directive_plain [OF Cons.prems, where r = r and cmd = cmd]
    by (simp add: re_findall_no_match)
  with Cons.IH [OF plain_tl [OF Cons.prems]] show ?case by simp
qed

lemma takeWhile_name:
  assumes "125 \<notin> set a" and "10 \<notin> set a"
  shows "takeWhile (\<lambda>x. x \<noteq> 125 \<and> x \<noteq> (10::nat)) (a @ 125 # r) = a"
  using assms by (induction a) auto

lemma m_directive_input_marker:
  assumes "clean_name n"
  shows "m_directive (asc ''input'') (input_marker n @ r) = Some (length (input_marker n), n)"
proof -
  from assms obtain c a where n: "n = c # a" by (cases n) (auto simp: clean_name_def)
  with assms have c: "c \<noteq> 10" and a: "125 \<notin> set a" "10 \<notin> set a"
    by (auto simp: clean_name_def)
  have tw: "takeWhile (\<lambda>x. x \<noteq> 125 \<and> x \<noteq> (10::nat)) (a @ 125 # r) = a"
    by (rule takeWhile_name [OF a])
  show ?thesis
    using c tw by (simp add: m_directive_def input_marker_def asc_def n Let_def)
qed

lemma m_directive_include_at_input:
  "m_directive (asc ''include'') (input_marker n @ r) = None"
  by (simp add: m_directive_def input_marker_def asc_def)

lemma re_findall_input_marker:
  assumes "clean_name n"
  shows "re_findall (m_directive (asc ''input'')) (input_marker n @ r)
         = n # re_findall (m_directive (asc ''input'')) r"
proof -
  obtain c cs where cs: "input_marker n @ r = c # cs" by (simp add: input_marker_shape)
  have "re_findall (m_directive (asc ''input'')) (c # cs)
        = n # re_findall (m_directive (asc ''input'')) (drop (length (input_marker n)) (c # cs))"
    using m_directive_input_marker [OF assms, of r]
    by (intro re_findall_match) (simp_all add: cs [symmetric] input_marker_shape)
  then show ?thesis by (simp add: cs [symmetric])
qed

lemma re_findall_include_at_input:
  assumes "clean_name n"
  shows "re_findall (m_directive (asc ''include'')) (input_marker n @ r)
         = re_findall (m_directive (asc ''include'')) r"
proof -
  have i: "asc ''include'' = 105 # asc ''nclude''" by (simp add: asc_def)
  have "re_findall (m_directive (asc ''include''))
          (92 # (105 # asc ''nput{'' @ n @ [125]) @ r)
        = re_findall (m_directive (asc ''include'')) ((105 # asc ''nput{'' @ n @ [125]) @ r)"
    using m_directive_include_at_input [of n r]
    by (intro re_findall_no_match) (simp add: input_marker_shape)
  also have "\<dots> = re_findall (m_directive (asc ''include'')) r"
    unfolding i by (rule re_findall_plain [OF marker_tail_plain [OF assms]])
  finally show ?thesis by (simp add: input_marker_shape)
qed

lemma re_findall_render:
  assumes "\<forall>s\<in>set segs. wf_segment s"
  shows "re_findall (m_directive (asc ''input'')) (render segs) = input_names segs"
    and "re_findall (m_directive (asc ''include'')) (render segs) = []"
  using assms
proof (induction segs rule: input_names.induct)
  case 1
  {
    case 1 show ?case by (simp add: render_def)
  next
    case 2 show ?case by (simp add: render_def)
  }
next
  case (2 t segs)
  have i: "asc ''include'' = 105 # asc ''nclude''" "asc ''input'' = 105 # asc ''nput''"
    by (simp_all add: asc_def)
  {
    case 1
    with 2 show ?case by (simp add: render_Cons i re_findall_plain)
  next
    case 2
    with "2.IH" show ?case by (simp add: render_Cons i re_findall_plain)
  }
next
  case (3 n segs)
  {
    case 1
    with 3 show ?case by (simp add: render_Cons re_findall_input_marker)
  next
    case 2
    with "3.IH" show ?case by (simp add: render_Cons re_findall_include_at_input)
  }
qed


lemma splice_marker_Nil [simp]: "splice_marker cs f [] = []"
  by (simp add: splice_marker_def)

lemma splice_marker_Cons: "splice_marker cs f (s # cur) = (if s = Inp f then cs f else [s]) @ splice_marker cs f cur"
  by (simp add: splice_marker_def)

lemma splice_marker_append: "splice_marker cs f (a @ b) = splice_marker cs f a @ splice_marker cs f b"
  by (simp add: splice_marker_def)

lemma render_splice:
  "concat (map (\<lambda>s. if s = Inp f then render (cs f) else render_segment s) cur)
   = render (splice_marker cs f cur)"
  by (induction cur) (auto simp: splice_marker_Cons render_append render_def)

lemma wf_splice:
  assumes "\<forall>s\<in>set cur. wf_segment s" and "\<forall>s\<in>set (cs f). wf_segment s"
  shows "\<forall>s\<in>set (splice_marker cs f cur). wf_segment s"
  using assms by (auto simp: splice_marker_def split: if_splits)

lemma substitute_includes_render:
  assumes "\<forall>n\<in>set ns. clean_name n
             \<and> dict_get fc (include_target n) (Some []) = Some (render (cs n))
             \<and> (\<forall>s\<in>set (cs n). wf_segment s)"
    and "\<forall>s\<in>set cur. wf_segment s"
  shows "substitute_includes fc ns (render cur) = Inr (render (fold (splice_marker cs) ns cur))"
  using assms
proof (induction ns arbitrary: cur)
  case Nil
  then show ?case by simp
next
  case (Cons f ns)
  from Cons.prems(1) have f: "clean_name f"
    and g: "dict_get fc (include_target f) (Some []) = Some (render (cs f))"
    and w: "\<forall>s\<in>set (cs f). wf_segment s"
    and rest: "\<forall>n\<in>set ns. clean_name n
             \<and> dict_get fc (include_target n) (Some []) = Some (render (cs n))
             \<and> (\<forall>s\<in>set (cs n). wf_segment s)"
    by simp_all
  have r: "str_replace (render cur) (input_marker f) (render (cs f))
           = render (splice_marker cs f cur)"
    using str_replace_render [OF Cons.prems(2) f] by (simp add: render_splice)
  have "substitute_includes fc ns (render (splice_marker cs f cur))
        = Inr (render (fold (splice_marker cs) ns (splice_marker cs f cur)))"
  proof (rule Cons.IH [OF rest])
    show "\<forall>s\<in>set (splice_marker cs f cur). wf_segment s"
      using Cons.prems(2) w by (rule wf_splice)
  qed
  then show ?case by (simp add: g r)
qed

lemma Inp_in_input_names: "Inp n \<in> set segs \<longleftrightarrow> n \<in> set (input_names segs)"
  by (induction segs rule: input_names.induct) auto

lemma splice_marker_absent: "f \<notin> set (input_names cur) \<Longrightarrow> splice_marker cs f cur = cur"
  by (induction cur) (auto simp: splice_marker_Cons Inp_in_input_names [symmetric])

lemma fold_splice_marker_absent:
  "set (input_names cur) \<inter> set ns = {} \<Longrightarrow> fold (splice_marker cs) ns cur = cur"
  by (induction ns arbitrary: cur) (auto simp: splice_marker_absent)

lemma fold_splice_marker_append:
  "fold (splice_marker cs) ns (a @ b) = fold (splice_marker cs) ns a @ fold (splice_marker cs) ns b"
  by (induction ns arbitrary: a b) (auto simp: splice_marker_append)

lemma fold_splice_Txt: "fold (splice_marker cs) ns [Txt t] = [Txt t]"
  by (induction ns) (auto simp: splice_marker_Cons)

lemma fold_splice_Inp:
  assumes "\<forall>n\<in>set ns. set (input_names (cs n)) \<inter> set ns = {}"
  shows "fold (splice_marker cs) ns [Inp n] = (if n \<in> set ns then cs n else [Inp n])"
  using assms
proof (induction ns)
  case Nil
  then show ?case by simp
next
  case (Cons f ns)
  then have IH: "fold (splice_marker cs) ns [Inp n] = (if n \<in> set ns then cs n else [Inp n])"
    by auto
  show ?case
  proof (cases "n = f")
    case True
    from Cons.prems have "set (input_names (cs f)) \<inter> set ns = {}" by auto
    then have "fold (splice_marker cs) ns (cs f) = cs f" by (rule fold_splice_marker_absent)
    then show ?thesis by (simp add: True splice_marker_Cons)
  next
    case False
    then show ?thesis using IH by (simp add: splice_marker_Cons)
  qed
qed

lemma fold_splice_all:
  assumes "\<forall>n\<in>set ns. set (input_names (cs n)) \<inter> set ns = {}"
    and "set (input_names segs) \<subseteq> set ns"
  shows "render (fold (splice_marker cs) ns segs) = concat (map (expand_segment cs) segs)"
  using assms(2)
proof (induction segs rule: input_names.induct)
  case 1
  then show ?case by (simp add: fold_splice_marker_absent render_def)
next
  case (2 t segs)
  have "fold (splice_marker cs) ns ([Txt t] @ segs) = [Txt t] @ fold (splice_marker cs) ns segs"
    by (simp only: fold_splice_marker_append fold_splice_Txt)
  with 2 show ?case by (simp add: render_Cons)
next
  case (3 n segs)
  have "fold (splice_marker cs) ns ([Inp n] @ segs) = cs n @ fold (splice_marker cs) ns segs"
    using 3(2) by (simp only: fold_splice_marker_append fold_splice_Inp [OF assms(1)]) simp
  with 3 show ?case by (simp add: render_append)
qed

lemma input_names_clean:
  "\<forall>s\<in>set segs. wf_segment s \<Longrightarrow> \<forall>n\<in>set (input_names segs). clean_name n"
  by (induction segs rule: input_names.induct) auto

lemma flatten_rendered:
  assumes wf: "\<forall>s\<in>set segs. wf_segment s"
    and root: "dict_lookup fc main_tex = Some (Some (render segs))"
    and inc: "\<forall>n\<in>set (input_names segs).
                dict_get fc (include_target n) (Some []) = Some (render (cs n))
                \<and> (\<forall>s\<in>set (cs n). wf_segment s)
                \<and> set (input_names (cs n)) \<inter> set (input_names segs) = {}"
  shows "flatten fc main_tex = Inr (concat (map (expand_segment cs) segs))"
proof -
  have names: "re_findall (m_directive (asc ''input'')) (render segs)
               @ re_findall (m_directive (asc ''include'')) (render segs) = input_names segs"
    by (simp add: re_findall_render [OF wf])
  have 1: "\<forall>n\<in>set (input_names segs). clean_name n
             \<and> dict_get fc (include_target n) (Some []) = Some (render (cs n))
             \<and> (\<forall>s\<in>set (cs n). wf_segment s)"
    using inc input_names_clean [OF wf] by blast
  have 2: "\<forall>n\<in>set (input_names segs).
             set (input_names (cs n)) \<inter> set (input_names segs) = {}"
    using inc by blast
  have "flatten fc main_tex = substitute_includes fc (input_names segs) (render segs)"
    by (simp add: flatten_def root names)
  also have "\<dots> = Inr (render (fold (splice_marker cs) (input_names segs) segs))"
    by (rule substitute_includes_render [OF 1 wf])
  also have "render (fold (splice_marker cs) (input_names segs) segs) = concat (map (expand_segment cs) segs)"
    by (rule fold_splice_all [OF 2]) simp
  finally show ?thesis .
qed

lemma find_sub_occurs: "find_sub p (x @ p @ y) \<noteq> None"
proof (induction x)
  case Nil
  show ?case
  proof (cases "p @ y")
    case Nil
    then show ?thesis by simp
  next
    case (Cons c cs)
    have "startswith (p @ y) p" by simp
    then show ?thesis by (simp add: Cons [symmetric] del: startswith_append_same) (simp add: Cons)
  qed
next
  case (Cons c x)
  then show ?case by auto
qed

lemma render_contains_marker:
  "g \<in> set (input_names segs) \<Longrightarrow> \<exists>x y. render segs = x @ input_marker g @ y"
proof (induction segs rule: input_names.induct)
  case 1
  then show ?case by simp
next
  case (2 t segs)
  then obtain x y where "render segs = x @ input_marker g @ y" by auto
  then have "render (Txt t # segs) = (t @ x) @ input_marker g @ y"
    by (simp add: render_Cons)
  then show ?case by blast
next
  case (3 n segs)
  show ?case
  proof (cases "g = n")
    case True
    have "render (Inp n # segs) = [] @ input_marker g @ render segs"
      by (simp add: render_Cons True)
    then show ?thesis by blast
  next
    case False
    with 3 obtain x y where "render segs = x @ input_marker g @ y" by auto
    then have "render (Inp n # segs) = (input_marker n @ x) @ input_marker g @ y"
      by (simp add: render_Cons)
    then show ?thesis by blast
  qed
qed

lemma expansion_contains_content:
  "n \<in> set (input_names segs) \<Longrightarrow>
   \<exists>x y. concat (map (expand_segment cs) segs) = x @ render (cs n) @ y"
proof (induction segs rule: input_names.induct)
  case 1
  then show ?case by simp
next
  case (2 t segs)
  then obtain x y where "concat (map (expand_segment cs) segs) = x @ render (cs n) @ y"
    by auto
  then have "concat (map (expand_segment cs) (Txt t # segs)) = (t @ x) @ render (cs n) @ y"
    by simp
  then show ?case by blast
next
  case (3 m segs)
  show ?case
  proof (cases "n = m")
    case True
    have "concat (map (expand_segment cs) (Inp m # segs))
          = [] @ render (cs n) @ concat (map (expand_segment cs) segs)"
      by (simp add: True)
    then show ?thesis by blast
  next
    case False
    with 3 obtain x y where "concat (map (expand_segment cs) segs) = x @ render (cs n) @ y"
      by auto
    then have "concat (map (expand_segment cs) (Inp m # segs))
               = (render (cs m) @ x) @ render (cs n) @ y"
      by simp
    then show ?thesis by blast
  qed
qed

lemma plain_concat: "\<forall>x\<in>set xs. plain x \<Longrightarrow> plain (concat xs)"
  by (induction xs) (auto simp: plain_append)

section \<open>The claims about the include flattener\<close>







section \<open>Facts about the noise stripper\<close>

lemma re_sub_set: "set (re_sub m repl s) \<subseteq> set s \<union> set repl"
proof (induction s rule: length_induct)
  case (1 s)
  show ?case
  proof (cases s)
    case Nil
    then show ?thesis by simp
  next
    case (Cons c cs)
    show ?thesis
    proof (cases "m (c # cs)")
      case None
      have "length cs < length s" by (simp add: Cons)
      with 1 have "set (re_sub m repl cs) \<subseteq> set cs \<union> set repl" by blast
      then show ?thesis using None by (auto simp: Cons re_sub_no_match)
    next
      case (Some n)
      show ?thesis
      proof (cases n)
        case 0
        have "length cs < length s" by (simp add: Cons)
        with 1 have "set (re_sub m repl cs) \<subseteq> set cs \<union> set repl" by blast
        then show ?thesis using Some 0 by (auto simp: Cons re_sub.simps(2))
      next
        case (Suc k)
        have "length (drop k cs) < length s" by (simp add: Cons)
        with 1 have "set (re_sub m repl (drop k cs)) \<subseteq> set (drop k cs) \<union> set repl" by blast
        moreover have "set (drop k cs) \<subseteq> set cs" by (rule set_drop_subset)
        ultimately show ?thesis using Some Suc by (auto simp: Cons re_sub.simps(2))
      qed
    qed
  qed
qed

lemma re_sub_identity:
  assumes "\<And>c cs. c \<in> set s \<Longrightarrow> m (c # cs) = None"
  shows "re_sub m repl s = s"
  using assms by (induction s) (simp_all add: re_sub_no_match)

lemma m_block_needs_backslash: "c \<noteq> 92 \<Longrightarrow> m_block (92 # opn) cls (c # cs) = None"
  by (simp add: m_block_def)

lemma m_lit_needs_backslash: "c \<noteq> 92 \<Longrightarrow> m_lit (92 # p) (c # cs) = None"
  by (simp add: m_lit_def)

lemma no_backslash_blocks:
  assumes "92 \<notin> set s"
  shows "remove_comment_blocks s = s" and "remove_iffalse_blocks s = s"
    and "remove_linebreaks s = s"
proof -
  have ne: "c \<noteq> 92" if "c \<in> set s" for c using assms that by auto
  show "remove_comment_blocks s = s"
    unfolding remove_comment_blocks_def pat_begin_comment_def
    by (rule re_sub_identity) (simp add: m_block_needs_backslash ne)
  show "remove_iffalse_blocks s = s"
    unfolding remove_iffalse_blocks_def pat_iffalse_def
    by (rule re_sub_identity) (simp add: m_block_needs_backslash ne)
  show "remove_linebreaks s = s"
    unfolding remove_linebreaks_def
    by (rule re_sub_identity) (simp add: m_lit_needs_backslash ne)
qed

lemma collapse_newlines_Nil [simp]: "collapse_newlines [] = []"
  by (simp add: collapse_newlines_def)

lemma collapse_newlines_Cons:
  "collapse_newlines (c # cs)
   = (if c = 10 then 10 # collapse_newlines (dropWhile (\<lambda>x. x = 10) cs)
      else c # collapse_newlines cs)"
proof (cases "c = 10")
  case True
  have "m_newlines (c # cs) = Some (Suc (length (takeWhile (\<lambda>x. x = 10) cs)))"
    by (simp add: m_newlines_def True)
  then have "re_sub m_newlines [10] (c # cs)
             = [10] @ re_sub m_newlines [10] (drop (length (takeWhile (\<lambda>x. x = 10) cs)) cs)"
    by (simp add: re_sub.simps(2))
  then show ?thesis by (simp add: collapse_newlines_def True dropWhile_eq_drop)
next
  case False
  then have "m_newlines (c # cs) = None" by (simp add: m_newlines_def)
  then show ?thesis using False by (simp add: collapse_newlines_def re_sub_no_match)
qed

lemma collapse_spaces_Nil [simp]: "collapse_spaces [] = []"
  by (simp add: collapse_spaces_def)

lemma collapse_spaces_Cons:
  "collapse_spaces (c # cs)
   = (if 3 \<le> length (takeWhile is_hspace (c # cs))
      then 32 # collapse_spaces (dropWhile is_hspace (c # cs))
      else c # collapse_spaces cs)"
proof (cases "3 \<le> length (takeWhile is_hspace (c # cs))")
  case True
  then have "m_hspaces (c # cs) = Some (length (takeWhile is_hspace (c # cs)))"
    by (simp add: m_hspaces_def Let_def)
  then have "re_sub m_hspaces [32] (c # cs)
      = [32] @ re_sub m_hspaces [32] (drop (length (takeWhile is_hspace (c # cs))) (c # cs))"
    using True by (intro re_sub_match) (auto split: if_splits)
  then show ?thesis using True by (simp add: collapse_spaces_def dropWhile_eq_drop)
next
  case False
  then have "m_hspaces (c # cs) = None" by (simp add: m_hspaces_def Let_def)
  then show ?thesis using False by (simp add: collapse_spaces_def re_sub_no_match)
qed


lemma remove_line_comments_Nil [simp]: "remove_line_comments [] = []"
  by (simp add: remove_line_comments_def)

lemma remove_line_comments_no_newline_after:
  "10 \<notin> set cs \<Longrightarrow> remove_line_comments (c # cs) = c # remove_line_comments cs"
  by (simp add: remove_line_comments_def m_line_comment_def re_sub_no_match)

lemma remove_line_comments_other:
  "c \<noteq> 37 \<Longrightarrow> remove_line_comments (c # cs) = c # remove_line_comments cs"
  by (simp add: remove_line_comments_def m_line_comment_def re_sub_no_match)

text \<open>The line comments\<close>

lemma no_comment_line_fixed:
  "no_comment_line s \<Longrightarrow> remove_line_comments s = s"
proof (induction s)
  case Nil
  then show ?case by simp
next
  case (Cons c cs)
  show ?case
  proof (cases "c = 37")
    case True
    with Cons.prems have n: "10 \<notin> set cs" by (simp add: no_comment_line_def)
    then have "set (dropWhile (\<lambda>c. c \<noteq> 37) cs) \<subseteq> set cs" by (simp add: set_dropWhileD subsetI)
    with n have "no_comment_line cs" by (auto simp: no_comment_line_def)
    with Cons.IH n show ?thesis by (simp add: remove_line_comments_no_newline_after)
  next
    case False
    with Cons.prems have "no_comment_line cs" by (simp add: no_comment_line_def)
    with Cons.IH False show ?thesis by (simp add: remove_line_comments_other)
  qed
qed

lemma no_comment_line_Cons_other:
  "c \<noteq> 37 \<Longrightarrow> no_comment_line (c # cs) = no_comment_line cs"
  by (simp add: no_comment_line_def)

lemma no_comment_line_no_newline: "10 \<notin> set s \<Longrightarrow> no_comment_line s"
  using set_dropWhileD by (fastforce simp: no_comment_line_def)

lemma no_comment_line_after_removal: "no_comment_line (remove_line_comments s)"
proof (induction s rule: length_induct)
  case (1 s)
  show ?case
  proof (cases "10 \<in> set s")
    case True
    then obtain l rest where s: "s = l @ 10 # rest" and l: "10 \<notin> set l"
      by (meson split_list_first)
    have "length rest < length s" by (simp add: s)
    with 1 have IH: "no_comment_line (remove_line_comments rest)" by blast
    have "dropWhile (\<lambda>c. c \<noteq> 37) (takeWhile (\<lambda>c. c \<noteq> 37) l @ 10 # remove_line_comments rest)
          = dropWhile (\<lambda>c. c \<noteq> 37) (10 # remove_line_comments rest)"
      by (rule dropWhile_append2) (auto dest: set_takeWhileD)
    then show ?thesis using IH
      by (simp add: s remove_line_comments_line [OF l] no_comment_line_def)
  next
    case False
    then show ?thesis by (simp add: remove_line_comments_last no_comment_line_no_newline)
  qed
qed

lemma no_comment_line_drop: "no_comment_line s \<Longrightarrow> no_comment_line (drop k s)"
proof (induction s arbitrary: k)
  case Nil
  then show ?case by simp
next
  case (Cons c cs)
  show ?case
  proof (cases k)
    case 0
    with Cons.prems show ?thesis by simp
  next
    case (Suc j)
    have "no_comment_line cs"
    proof (cases "c = 37")
      case True
      with Cons.prems have "10 \<notin> set cs" by (simp add: no_comment_line_def)
      then show ?thesis by (rule no_comment_line_no_newline)
    next
      case False
      with Cons.prems show ?thesis by (simp add: no_comment_line_Cons_other)
    qed
    then show ?thesis using Cons.IH by (simp add: Suc)
  qed
qed

lemma no_comment_line_dropWhile: "no_comment_line s \<Longrightarrow> no_comment_line (dropWhile P s)"
  using no_comment_line_drop [of s "length (takeWhile P s)"] by (simp add: dropWhile_eq_drop)

lemma collapse_newlines_no_newline: "10 \<notin> set s \<Longrightarrow> collapse_newlines s = s"
  by (induction s) (simp_all add: collapse_newlines_Cons)

lemma no_comment_line_collapse_newlines:
  "no_comment_line s \<Longrightarrow> no_comment_line (collapse_newlines s)"
proof (induction s rule: length_induct)
  case (1 s)
  show ?case
  proof (cases s)
    case Nil
    then show ?thesis by (simp add: no_comment_line_def)
  next
    case (Cons c cs)
    show ?thesis
    proof (cases "c = 10")
      case True
      have "length (dropWhile (\<lambda>x. x = 10) cs) < length s"
        by (simp add: Cons length_dropWhile_le less_Suc_eq_le)
      moreover have "no_comment_line (dropWhile (\<lambda>x. x = 10) cs)"
        using "1.prems" by (simp add: Cons True no_comment_line_Cons_other no_comment_line_dropWhile)
      ultimately have "no_comment_line (collapse_newlines (dropWhile (\<lambda>x. x = 10) cs))"
        using 1 by blast
      then show ?thesis by (simp add: Cons True collapse_newlines_Cons no_comment_line_Cons_other)
    next
      case False
      show ?thesis
      proof (cases "c = 37")
        case True
        with "1.prems" have "10 \<notin> set cs" by (simp add: Cons no_comment_line_def)
        then have "collapse_newlines cs = cs" by (rule collapse_newlines_no_newline)
        then show ?thesis using "1.prems" True by (simp add: Cons collapse_newlines_Cons)
      next
        case c: False
        have "length cs < length s" by (simp add: Cons)
        moreover have "no_comment_line cs"
          using "1.prems" c by (simp add: Cons no_comment_line_Cons_other)
        ultimately have "no_comment_line (collapse_newlines cs)" using 1 by blast
        then show ?thesis using False c
          by (simp add: Cons collapse_newlines_Cons no_comment_line_Cons_other)
      qed
    qed
  qed
qed

lemma hspace_not_special: "is_hspace c \<Longrightarrow> c \<noteq> 37 \<and> c \<noteq> 10 \<and> c \<noteq> 92"
  by (auto simp: is_hspace_def)

lemma collapse_spaces_set: "set (collapse_spaces s) \<subseteq> set s \<union> {32}"
  using re_sub_set [of m_hspaces "[32]" s] by (simp add: collapse_spaces_def)

lemma no_comment_line_collapse_spaces:
  "no_comment_line s \<Longrightarrow> no_comment_line (collapse_spaces s)"
proof (induction s rule: length_induct)
  case (1 s)
  show ?case
  proof (cases s)
    case Nil
    then show ?thesis by (simp add: no_comment_line_def)
  next
    case (Cons c cs)
    show ?thesis
    proof (cases "3 \<le> length (takeWhile is_hspace (c # cs))")
      case True
      have "length (dropWhile is_hspace (c # cs)) < length s"
        using True by (auto simp: Cons length_dropWhile_le less_Suc_eq_le split: if_splits)
      moreover have "no_comment_line (dropWhile is_hspace (c # cs))"
        using "1.prems" unfolding Cons by (rule no_comment_line_dropWhile)
      ultimately have "no_comment_line (collapse_spaces (dropWhile is_hspace (c # cs)))"
        using 1 by blast
      then show ?thesis using True
        by (simp add: Cons collapse_spaces_Cons no_comment_line_Cons_other del: dropWhile.simps takeWhile.simps)
    next
      case False
      show ?thesis
      proof (cases "c = 37")
        case True
        with "1.prems" have "10 \<notin> set cs" by (simp add: Cons no_comment_line_def)
        with collapse_spaces_set [of cs] have "10 \<notin> set (collapse_spaces cs)" by auto
        then show ?thesis using False True
          by (simp add: Cons collapse_spaces_Cons no_comment_line_def del: takeWhile.simps)
      next
        case c: False
        have "length cs < length s" by (simp add: Cons)
        moreover have "no_comment_line cs"
          using "1.prems" c by (simp add: Cons no_comment_line_Cons_other)
        ultimately have "no_comment_line (collapse_spaces cs)" using 1 by blast
        then show ?thesis using False c
          by (simp add: Cons collapse_spaces_Cons no_comment_line_Cons_other del: takeWhile.simps)
      qed
    qed
  qed
qed


text \<open>The newlines\<close>

lemma single_newlines_other: "c \<noteq> 10 \<Longrightarrow> single_newlines (c # cs) = single_newlines cs"
  by (cases cs) auto

lemma single_newlines_newline:
  "single_newlines (10 # cs) = ((case cs of [] \<Rightarrow> True | d # _ \<Rightarrow> d \<noteq> 10) \<and> single_newlines cs)"
  by (cases cs) auto

lemma single_newlines_tl: "single_newlines (c # cs) \<Longrightarrow> single_newlines cs"
  by (cases cs) auto

lemma single_newlines_drop: "single_newlines s \<Longrightarrow> single_newlines (drop k s)"
proof (induction k arbitrary: s)
  case 0
  then show ?case by simp
next
  case (Suc k)
  then show ?case by (cases s) (auto dest: single_newlines_tl)
qed

lemma single_newlines_dropWhile: "single_newlines s \<Longrightarrow> single_newlines (dropWhile P s)"
  using single_newlines_drop [of s "length (takeWhile P s)"] by (simp add: dropWhile_eq_drop)

lemma single_newlines_fixed: "single_newlines s \<Longrightarrow> collapse_newlines s = s"
proof (induction s rule: single_newlines.induct)
  case 1
  then show ?case by simp
next
  case (2 c)
  then show ?case by (simp add: collapse_newlines_Cons)
next
  case (3 c d cs)
  from "3.prems" have IH: "collapse_newlines (d # cs) = d # cs"
    using "3.IH" by simp
  show ?case
  proof (cases "c = 10")
    case True
    with "3.prems" have "d \<noteq> 10" by simp
    then have dw: "dropWhile (\<lambda>x. x = 10) (d # cs) = d # cs" by simp
    have "collapse_newlines (10 # d # cs)
          = 10 # collapse_newlines (dropWhile (\<lambda>x. x = 10) (d # cs))"
      by (subst collapse_newlines_Cons) (simp only: simp_thms if_True)
    then have "collapse_newlines (10 # d # cs) = 10 # d # cs"
      by (simp only: dw IH)
    with True show ?thesis by simp
  next
    case False
    then have "collapse_newlines (c # d # cs) = c # collapse_newlines (d # cs)"
      by (subst collapse_newlines_Cons) (simp only: simp_thms if_False)
    then show ?thesis by (simp only: IH)
  qed
qed

lemma collapse_newlines_head:
  assumes "case s of [] \<Rightarrow> True | d # _ \<Rightarrow> d \<noteq> 10"
  shows "case collapse_newlines s of [] \<Rightarrow> True | d # _ \<Rightarrow> d \<noteq> 10"
  using assms by (cases s) (simp_all add: collapse_newlines_Cons)

lemma dropWhile_head: "case dropWhile P s of [] \<Rightarrow> True | d # _ \<Rightarrow> \<not> P d"
  by (induction s) auto

lemma single_newlines_collapse_newlines: "single_newlines (collapse_newlines s)"
proof (induction s rule: length_induct)
  case (1 s)
  show ?case
  proof (cases s)
    case Nil
    then show ?thesis by simp
  next
    case (Cons c cs)
    show ?thesis
    proof (cases "c = 10")
      case True
      let ?r = "dropWhile (\<lambda>x. x = 10) cs"
      have "length ?r < length s" by (simp add: Cons length_dropWhile_le less_Suc_eq_le)
      with 1 have IH: "single_newlines (collapse_newlines ?r)" by blast
      have "case ?r of [] \<Rightarrow> True | d # _ \<Rightarrow> d \<noteq> 10"
        using dropWhile_head [of "\<lambda>x. x = 10" cs] by simp
      then have "case collapse_newlines ?r of [] \<Rightarrow> True | d # _ \<Rightarrow> d \<noteq> 10"
        by (rule collapse_newlines_head)
      with IH show ?thesis
        by (simp add: Cons True collapse_newlines_Cons single_newlines_newline)
    next
      case False
      have "length cs < length s" by (simp add: Cons)
      with 1 have "single_newlines (collapse_newlines cs)" by blast
      then show ?thesis using False
        by (simp add: Cons collapse_newlines_Cons single_newlines_other)
    qed
  qed
qed

lemma collapse_spaces_head:
  assumes "case s of [] \<Rightarrow> True | d # _ \<Rightarrow> d \<noteq> 10"
  shows "case collapse_spaces s of [] \<Rightarrow> True | d # _ \<Rightarrow> d \<noteq> 10"
proof (cases s)
  case Nil
  then show ?thesis by simp
next
  case (Cons d ds)
  with assms show ?thesis
    by (simp add: collapse_spaces_Cons del: takeWhile.simps dropWhile.simps)
qed

lemma single_newlines_collapse_spaces:
  "single_newlines s \<Longrightarrow> single_newlines (collapse_spaces s)"
proof (induction s rule: length_induct)
  case (1 s)
  show ?case
  proof (cases s)
    case Nil
    then show ?thesis by simp
  next
    case (Cons c cs)
    show ?thesis
    proof (cases "3 \<le> length (takeWhile is_hspace (c # cs))")
      case True
      have "length (dropWhile is_hspace (c # cs)) < length s"
        using True by (auto simp: Cons length_dropWhile_le less_Suc_eq_le split: if_splits)
      moreover have "single_newlines (dropWhile is_hspace (c # cs))"
        using "1.prems" unfolding Cons by (rule single_newlines_dropWhile)
      ultimately have "single_newlines (collapse_spaces (dropWhile is_hspace (c # cs)))"
        using 1 by blast
      then show ?thesis using True
        by (simp add: Cons collapse_spaces_Cons single_newlines_other
              del: dropWhile.simps takeWhile.simps)
    next
      case False
      have "length cs < length s" by (simp add: Cons)
      moreover have cs: "single_newlines cs"
        using "1.prems" unfolding Cons by (rule single_newlines_tl)
      ultimately have IH: "single_newlines (collapse_spaces cs)" using 1 by blast
      show ?thesis
      proof (cases "c = 10")
        case True
        from "1.prems" have "case cs of [] \<Rightarrow> True | d # _ \<Rightarrow> d \<noteq> 10"
          by (simp add: Cons True single_newlines_newline)
        then have "case collapse_spaces cs of [] \<Rightarrow> True | d # _ \<Rightarrow> d \<noteq> 10"
          by (rule collapse_spaces_head)
        with IH False show ?thesis
          by (simp add: Cons True collapse_spaces_Cons single_newlines_newline
                del: takeWhile.simps)
      next
        case c: False
        with IH False show ?thesis
          by (simp add: Cons collapse_spaces_Cons single_newlines_other del: takeWhile.simps)
      qed
    qed
  qed
qed

text \<open>The spaces\<close>

lemma short_spaces_fixed: "short_spaces s \<Longrightarrow> collapse_spaces s = s"
  by (induction s) (simp_all add: collapse_spaces_Cons del: takeWhile.simps)

lemma collapse_spaces_short_run:
  "length (takeWhile is_hspace s) < 3 \<Longrightarrow>
   takeWhile is_hspace (collapse_spaces s) = takeWhile is_hspace s"
proof (induction s)
  case Nil
  then show ?case by simp
next
  case (Cons c cs)
  from Cons.prems have n: "\<not> 3 \<le> length (takeWhile is_hspace (c # cs))" by simp
  show ?case
  proof (cases "is_hspace c")
    case True
    with Cons.prems have "length (takeWhile is_hspace cs) < 3" by simp
    with Cons.IH have "takeWhile is_hspace (collapse_spaces cs) = takeWhile is_hspace cs" .
    then show ?thesis using n True by (simp add: collapse_spaces_Cons)
  next
    case False
    then show ?thesis using n by (simp add: collapse_spaces_Cons)
  qed
qed

lemma short_spaces_collapse_spaces: "short_spaces (collapse_spaces s)"
proof (induction s rule: length_induct)
  case (1 s)
  show ?case
  proof (cases s)
    case Nil
    then show ?thesis by simp
  next
    case (Cons c cs)
    show ?thesis
    proof (cases "3 \<le> length (takeWhile is_hspace (c # cs))")
      case True
      let ?r = "dropWhile is_hspace (c # cs)"
      have "length ?r < length s"
        using True by (auto simp: Cons length_dropWhile_le less_Suc_eq_le split: if_splits)
      with 1 have IH: "short_spaces (collapse_spaces ?r)" by blast
      have "takeWhile is_hspace ?r = []"
        using dropWhile_head [of is_hspace "c # cs"] by (cases ?r) auto
      then have "takeWhile is_hspace (collapse_spaces ?r) = []"
        using collapse_spaces_short_run [of ?r] by simp
      with IH have "short_spaces (32 # collapse_spaces ?r)"
        by (simp add: is_hspace_def)
      then show ?thesis using True
        by (simp add: Cons collapse_spaces_Cons del: dropWhile.simps takeWhile.simps short_spaces.simps)
    next
      case False
      have "length cs < length s" by (simp add: Cons)
      with 1 have IH: "short_spaces (collapse_spaces cs)" by blast
      have run: "length (takeWhile is_hspace (c # collapse_spaces cs)) < 3"
      proof (cases "is_hspace c")
        case True
        with False have "length (takeWhile is_hspace cs) < 3" by simp
        then have "takeWhile is_hspace (collapse_spaces cs) = takeWhile is_hspace cs"
          by (rule collapse_spaces_short_run)
        with False True show ?thesis by simp
      next
        case h: False
        then show ?thesis by simp
      qed
      have "collapse_spaces (c # cs) = c # collapse_spaces cs"
        using False by (simp add: collapse_spaces_Cons del: takeWhile.simps)
      with IH run show ?thesis by (simp add: Cons del: takeWhile.simps)
    qed
  qed
qed

text \<open>The whole transform on a text without a backslash\<close>

lemma remove_line_comments_set: "set (remove_line_comments s) \<subseteq> set s \<union> {10}"
  using re_sub_set [of m_line_comment "[10]" s] by (simp add: remove_line_comments_def)

lemma collapse_newlines_set: "set (collapse_newlines s) \<subseteq> set s \<union> {10}"
  using re_sub_set [of m_newlines "[10]" s] by (simp add: collapse_newlines_def)

lemma strip_noise_no_backslash:
  assumes "92 \<notin> set t"
  shows "strip_noise t = collapse_spaces (collapse_newlines (remove_line_comments t))"
    and "92 \<notin> set (strip_noise t)"
proof -
  have 1: "92 \<notin> set (remove_line_comments t)"
    using remove_line_comments_set [of t] assms by auto
  then have 4: "92 \<notin> set (collapse_newlines (remove_line_comments t))"
    using collapse_newlines_set [of "remove_line_comments t"] by auto
  show e: "strip_noise t = collapse_spaces (collapse_newlines (remove_line_comments t))"
    by (simp add: strip_noise_def no_backslash_blocks [OF 1] no_backslash_blocks [OF 4])
  show "92 \<notin> set (strip_noise t)"
    using collapse_spaces_set [of "collapse_newlines (remove_line_comments t)"] 4
    by (auto simp: e)
qed

lemma strip_noise_idempotent_no_backslash:
  assumes "92 \<notin> set t"
  shows "strip_noise (strip_noise t) = strip_noise t"
proof -
  let ?r = "collapse_spaces (collapse_newlines (remove_line_comments t))"
  have r: "strip_noise t = ?r" by (rule strip_noise_no_backslash(1) [OF assms])
  have "92 \<notin> set ?r" using strip_noise_no_backslash(2) [OF assms] by (simp add: r)
  then have "strip_noise ?r = collapse_spaces (collapse_newlines (remove_line_comments ?r))"
    by (rule strip_noise_no_backslash(1))
  moreover have "remove_line_comments ?r = ?r"
    by (intro no_comment_line_fixed no_comment_line_collapse_spaces
          no_comment_line_collapse_newlines no_comment_line_after_removal)
  moreover have "collapse_newlines ?r = ?r"
    by (intro single_newlines_fixed single_newlines_collapse_spaces
          single_newlines_collapse_newlines)
  moreover have "collapse_spaces ?r = ?r"
    by (intro short_spaces_fixed short_spaces_collapse_spaces)
  ultimately show ?thesis by (simp add: r)
qed

section \<open>The claim about idempotence\<close>




end
